theory Spec2Isabelle
  imports Main "HOL-Library.Word"
begin

unbundle bit_operations_syntax

section \<open>Integer helpers of \<^verbatim>\<open>include/triton/Analysis/Utility.h\<close>\<close>

text \<open>
  The helpers are templates over an integer type \<^verbatim>\<open>T\<close>. A value of a \<open>W\<close>-bit
  type is a \<open>'a word\<close> with \<open>LENGTH('a) = W\<close>: \<open>+\<close>, \<open>-\<close> and \<open>*\<close> wrap around,
  \<open>unat\<close> reads the bits as an unsigned number and \<open>sint\<close> as two's complement.
\<close>

subsection \<open>\<^verbatim>\<open>product\<close>\<close>

text \<open>
  \<^verbatim>\<open>
  template <typename Int> Int product(llvm::ArrayRef<Int> arr) {
    return std::accumulate(arr.begin(), arr.end(), 1, std::multiplies{});
  }
  \<close>
  The initial value \<^verbatim>\<open>1\<close> has type \<^verbatim>\<open>int\<close>, so the accumulator of
  \<^verbatim>\<open>std::accumulate\<close> is a 32-bit \<^verbatim>\<open>int\<close> whatever \<^verbatim>\<open>Int\<close> is: every step
  multiplies in the common type of \<^verbatim>\<open>int\<close> and \<^verbatim>\<open>Int\<close> and stores the result back
  into the \<^verbatim>\<open>int\<close>, and the final \<^verbatim>\<open>int\<close> is converted to \<^verbatim>\<open>Int\<close> on return.
  The flag says whether \<^verbatim>\<open>Int\<close> is a signed type (it decides how an element is
  read); arithmetic wraps around.
\<close>

definition product_step :: "bool \<Rightarrow> 'a::len word \<Rightarrow> 32 word \<Rightarrow> 32 word" where
  "product_step is_signed x acc =
     word_of_int (sint acc * (if is_signed then sint x else uint x))"

definition product :: "bool \<Rightarrow> 'a::len word list \<Rightarrow> 'a word" where
  "product is_signed arr = scast (fold (product_step is_signed) arr (1 :: 32 word))"

subsection \<open>\<^verbatim>\<open>highestPowOf2Divisor\<close>\<close>

text \<open>
  \<^verbatim>\<open>
  template <typename T> T highestPowOf2Divisor(T n) {
    if (n == 0) {
      return (static_cast<T>(1) << (sizeof(T) * 8 - 2));
    }
    return (n & (~(n - 1)));
  }
  \<close>
\<close>

definition highestPowOf2Divisor :: "'a::len word \<Rightarrow> 'a word" where
  "highestPowOf2Divisor n =
     (if n = 0 then push_bit (LENGTH('a) - 2) 1 else n AND NOT (n - 1))"

subsection \<open>\<^verbatim>\<open>nextPowOf2\<close>\<close>

text \<open>
  \<^verbatim>\<open>
  template <typename T> T nextPowOf2(T n) {
    if (n == 0) {
      return 1;
    }
    n--;
    for (unsigned i = 1; i < sizeof(T) * 8; i <<= 1) {
      n |= n >> i;
    }
    return n + 1;
  }
  \<close>
  The loop is a recursive function on the loop variable \<open>i\<close> and the current \<open>n\<close>. The
  source enters it at \<open>i = 1\<close> only; at \<open>i = 0\<close>, which it never reaches, doubling would
  make no progress, and the function returns there so that it is total.

  \<open>nextPowOf2\<close> is the function at an unsigned \<^verbatim>\<open>T\<close>: \<^verbatim>\<open>>>\<close> is the logical shift, and
  argument and result are read with \<open>unat\<close>. \<open>nextPowOf2_signed\<close> is the function at a
  signed \<^verbatim>\<open>T\<close>: \<^verbatim>\<open>>>\<close> is the arithmetic shift, which copies the sign bit, and argument
  and result are read with \<open>sint\<close>; where the final \<open>n + 1\<close> overflows the signed type,
  the model wraps around in two's complement.
\<close>

function nextPowOf2_loop :: "nat \<Rightarrow> 'a::len word \<Rightarrow> 'a word" where
  "nextPowOf2_loop i n =
     (if 0 < i \<and> i < LENGTH('a) then nextPowOf2_loop (2 * i) (n OR drop_bit i n) else n)"
  by pat_completeness auto
termination
  by (relation "measure (\<lambda>(i, n::'a word). LENGTH('a) - i)") auto

declare nextPowOf2_loop.simps [simp del]

definition nextPowOf2 :: "'a::len word \<Rightarrow> 'a word" where
  "nextPowOf2 n = (if n = 0 then 1 else nextPowOf2_loop 1 (n - 1) + 1)"

function nextPowOf2_loop_signed :: "nat \<Rightarrow> 'a::len word \<Rightarrow> 'a word" where
  "nextPowOf2_loop_signed i n =
     (if 0 < i \<and> i < LENGTH('a) then nextPowOf2_loop_signed (2 * i) (n OR signed_drop_bit i n)
      else n)"
  by pat_completeness auto
termination
  by (relation "measure (\<lambda>(i, n::'a word). LENGTH('a) - i)") auto

declare nextPowOf2_loop_signed.simps [simp del]

definition nextPowOf2_signed :: "'a::len word \<Rightarrow> 'a word" where
  "nextPowOf2_signed n = (if n = 0 then 1 else nextPowOf2_loop_signed 1 (n - 1) + 1)"

section \<open>\<^verbatim>\<open>ReduceOpHelper\<close>\<close>

text \<open>
  The operation, type and attribute classes of MLIR are outside this file. A ranked
  tensor type is a record of what the constructor reads from it; the layout attribute
  \<open>'enc\<close>, the element type \<open>'ty\<close> and the operation handle \<open>'op\<close> are opaque and
  compared by equality, as \<^verbatim>\<open>Attribute::operator!=\<close> does.
\<close>

record ('enc, 'ty) RankedTensorType =
  getShape :: "int list"
  getEncoding :: 'enc
  getElementType :: 'ty

record ('op, 'enc, 'ty) ReduceOp =
  getOperation :: 'op
  getAxis :: int
  getOperands :: "('enc, 'ty) RankedTensorType list"

text \<open>
  Modelled from the spec: \<^verbatim>\<open>ReduceOp::getInputTypes\<close> and
  \<^verbatim>\<open>ReduceOp::getElementTypes\<close> belong to the dialect and are not in this file.
  Section 4.1 of the specification says that the operation exposes an ordered sequence
  of input tensors and, per input, an element type: the input types are the types of
  the operands, in order, and the element types are their element types.
\<close>

definition getInputTypes :: "('op, 'enc, 'ty) ReduceOp \<Rightarrow> ('enc, 'ty) RankedTensorType list" where
  "getInputTypes rop = getOperands rop"

definition getElementTypes :: "('op, 'enc, 'ty) ReduceOp \<Rightarrow> 'ty list" where
  "getElementTypes rop = map getElementType (getOperands rop)"

text \<open>
  \<^verbatim>\<open>rop.emitError() << "shape mismatch"\<close> reports an error diagnostic that carries the
  operation it is attributed to and the message. Emitting it returns to the caller: the
  constructor goes on with the loop.
\<close>

datatype 'op Diagnostic = Error (diagOp: 'op) (diagMessage: string)

record ('op, 'enc, 'ty) ReduceOpHelper =
  operation :: 'op
  srcShape :: "int list"
  srcEncoding :: 'enc
  srcElementTypes :: "'ty list"
  axis :: int

text \<open>
  \<^verbatim>\<open>
  for (const auto &t : rop.getInputTypes()) {
    if (t.getShape() != srcShape) {
      rop.emitError() << "shape mismatch";
    }
    if (t.getEncoding() != srcEncoding) {
      rop.emitError() << "encoding mismatch";
    }
  }
  \<close>
\<close>

definition checkInputType ::
  "'op \<Rightarrow> int list \<Rightarrow> 'enc \<Rightarrow> ('enc, 'ty) RankedTensorType \<Rightarrow> 'op Diagnostic list" where
  "checkInputType opr shp enc t =
     (if getShape t \<noteq> shp then [Error opr ''shape mismatch''] else []) @
     (if getEncoding t \<noteq> enc then [Error opr ''encoding mismatch''] else [])"

text \<open>
  The constructor. \<^verbatim>\<open>rop.getOperands()[0]\<close> on an operation without operands is an
  out-of-range access, the one way the constructor can fail; otherwise it returns the
  helper it built together with the diagnostics it emitted, in order.
\<close>

datatype ctor_failure = NoOperand

definition ReduceOpHelper_ctor ::
  "('op, 'enc, 'ty) ReduceOp \<Rightarrow>
     ctor_failure + ('op, 'enc, 'ty) ReduceOpHelper \<times> 'op Diagnostic list" where
  "ReduceOpHelper_ctor rop =
     (case getOperands rop of
        [] \<Rightarrow> Inl NoOperand
      | firstTy # _ \<Rightarrow>
          Inr (\<lparr>operation = getOperation rop,
                srcShape = getShape firstTy,
                srcEncoding = getEncoding firstTy,
                srcElementTypes = getElementTypes rop,
                axis = getAxis rop\<rparr>,
               concat (map (checkInputType (getOperation rop) (getShape firstTy) (getEncoding firstTy))
                        (getInputTypes rop))))"

definition getSrcShape :: "('op, 'enc, 'ty) ReduceOpHelper \<Rightarrow> int list" where
  "getSrcShape h = srcShape h"

definition getSrcLayout :: "('op, 'enc, 'ty) ReduceOpHelper \<Rightarrow> 'enc" where
  "getSrcLayout h = srcEncoding h"

text \<open>
  The inputs of a reduction are mismatched when some input differs from the first one in
  shape or in layout encoding.
\<close>

definition inputsMismatched :: "('op, 'enc, 'ty) ReduceOp \<Rightarrow> bool" where
  "inputsMismatched rop =
     (case getOperands rop of
        [] \<Rightarrow> False
      | firstTy # _ \<Rightarrow>
          list_ex (\<lambda>t. getShape t \<noteq> getShape firstTy \<or> getEncoding t \<noteq> getEncoding firstTy)
            (getOperands rop))"

subsection \<open>Partition sizes\<close>

text \<open>
  \<^verbatim>\<open>getInterWarpSize\<close>, \<^verbatim>\<open>getIntraWarpSize\<close> and \<^verbatim>\<open>getThreadsReductionAxis\<close> are
  declared in the header and defined elsewhere. The layout descriptor gives, for each
  dimension, the extent at the lane level and at the warp level (section 3 of the
  specification); sizes are \<^verbatim>\<open>unsigned\<close>, 32-bit words.
\<close>

record LayoutDescriptor =
  laneExtent :: "nat \<Rightarrow> 32 word"
  warpExtent :: "nat \<Rightarrow> 32 word"

text \<open>
  Modelled from the spec: the body of \<^verbatim>\<open>ReduceOpHelper::getIntraWarpSize\<close> is missing.
  Section 4.1: the number of lane-level partitions that cover the reduction axis, derived
  from the layout's per-level extents at that axis.
\<close>

definition getIntraWarpSize :: "('op, LayoutDescriptor, 'ty) ReduceOpHelper \<Rightarrow> 32 word" where
  "getIntraWarpSize h = laneExtent (getSrcLayout h) (nat (axis h))"

text \<open>
  Modelled from the spec: the body of \<^verbatim>\<open>ReduceOpHelper::getInterWarpSize\<close> is missing.
  Section 4.1: the number of warp-level partitions that cover the reduction axis, derived
  from the layout's per-level extents at that axis.
\<close>

definition getInterWarpSize :: "('op, LayoutDescriptor, 'ty) ReduceOpHelper \<Rightarrow> 32 word" where
  "getInterWarpSize h = warpExtent (getSrcLayout h) (nat (axis h))"

text \<open>
  Modelled from the spec: the body of \<^verbatim>\<open>ReduceOpHelper::getThreadsReductionAxis\<close> is
  missing. Section 4.1: the total lanes spanning the axis, which is the lane-level extent
  of the layout at the axis taken once for every warp-level partition of the axis.
\<close>

definition getThreadsReductionAxis :: "('op, LayoutDescriptor, 'ty) ReduceOpHelper \<Rightarrow> 32 word" where
  "getThreadsReductionAxis h =
     laneExtent (getSrcLayout h) (nat (axis h)) * warpExtent (getSrcLayout h) (nat (axis h))"

section \<open>\<^verbatim>\<open>CallGraph\<close>\<close>

text \<open>
  Function handles \<open>'f\<close> (\<^verbatim>\<open>FunctionOpInterface\<close>) and call-site handles \<open>'c\<close>
  (\<^verbatim>\<open>CallOpInterface\<close>) are opaque and compared by identity; the null handle is a
  value of \<open>'f\<close> like any other. A module is the list of its operations in the order in
  which \<^verbatim>\<open>moduleOp.walk\<close> visits them, each with what \<^verbatim>\<open>build\<close> reads from it:
  \<^item> \<open>FuncOp f\<close>: the operation is the function \<open>f\<close>;
  \<^item> \<open>CallOp callOp caller callee\<close>: the operation is a call site, \<open>caller\<close> is
    \<^verbatim>\<open>op->getParentOfType<FunctionOpInterface>()\<close> and \<open>callee\<close> is
    \<^verbatim>\<open>dyn_cast_or_null<FunctionOpInterface>(callOp.resolveCallable(&symbolTable))\<close>,
    \<open>None\<close> when that is null;
  \<^item> \<open>OtherOp\<close>: any other operation.
\<close>

datatype ('f, 'c) Operation = FuncOp 'f | CallOp 'c 'f "'f option" | OtherOp

text \<open>
  \<^verbatim>\<open>graph\<close> is a \<^verbatim>\<open>DenseMap\<close> that is only ever read through \<^verbatim>\<open>operator[]\<close>,
  which default-constructs the entry of a missing key: it is a total function whose value
  at a function without an entry is the empty edge list. \<^verbatim>\<open>funcMap\<close> is a partial map,
  since \<^verbatim>\<open>getFuncData\<close> tells a missing key from a present one. Both are maps from
  keys to values: where the table of a \<^verbatim>\<open>DenseMap\<close> keeps its entries in memory, and
  that it moves them when it grows, is not part of the model.
\<close>

record ('f, 'c, 't) CallGraph =
  moduleOp :: "('f, 'c) Operation list"
  graph :: "'f \<Rightarrow> ('c \<times> 'f) list"
  funcMap :: "'f \<rightharpoonup> 't"
  roots :: "'f list"

subsection \<open>\<^verbatim>\<open>build\<close>\<close>

text \<open>
  \<^verbatim>\<open>
  moduleOp.walk([&](Operation *op) {
    auto caller = op->getParentOfType<FunctionOpInterface>();
    if (auto callOp = dyn_cast<CallOpInterface>(op)) {
      auto *callee = callOp.resolveCallable(&symbolTable);
      auto funcOp = dyn_cast_or_null<FunctionOpInterface>(callee);
      if (funcOp) {
        graph[caller].emplace_back(
            std::pair<CallOpInterface, FunctionOpInterface>(callOp, funcOp));
        visited.insert(funcOp);
      }
    }
  });
  \<close>
\<close>

fun buildEdge ::
  "('f, 'c) Operation \<Rightarrow> ('f \<Rightarrow> ('c \<times> 'f) list) \<times> 'f set \<Rightarrow> ('f \<Rightarrow> ('c \<times> 'f) list) \<times> 'f set" where
  "buildEdge (CallOp callOp caller (Some funcOp)) (g, visited) =
     (g(caller := g caller @ [(callOp, funcOp)]), insert funcOp visited)"
| "buildEdge _ (g, visited) = (g, visited)"

text \<open>
  \<^verbatim>\<open>
  moduleOp.walk([&](FunctionOpInterface funcOp) {
    if (!visited.count(funcOp)) {
      roots.push_back(funcOp);
    }
  });
  \<close>
\<close>

fun findRoots :: "'f set \<Rightarrow> ('f, 'c) Operation list \<Rightarrow> 'f list" where
  "findRoots visited [] = []"
| "findRoots visited (FuncOp funcOp # ops) =
     (if funcOp \<notin> visited then funcOp # findRoots visited ops else findRoots visited ops)"
| "findRoots visited (_ # ops) = findRoots visited ops"

definition build :: "('f, 'c) Operation list \<Rightarrow> ('f, 'c, 't) CallGraph" where
  "build m =
     (case fold buildEdge m (\<lambda>_. [], {}) of
        (g, visited) \<Rightarrow>
          \<lparr>moduleOp = m, graph = g, funcMap = Map.empty, roots = findRoots visited m\<rparr>)"

text \<open>
  What the two walks compute, read off the module: the edges of a caller are its resolved
  call sites in module order, the set \<^verbatim>\<open>visited\<close> of \<^verbatim>\<open>build\<close> is the set of the
  resolved callees, and \<open>moduleFuncs\<close> lists the functions of the module in order.
\<close>

fun moduleEdges :: "('f, 'c) Operation list \<Rightarrow> 'f \<Rightarrow> ('c \<times> 'f) list" where
  "moduleEdges [] f = []"
| "moduleEdges (CallOp callOp caller (Some funcOp) # ops) f =
     (if caller = f then (callOp, funcOp) # moduleEdges ops f else moduleEdges ops f)"
| "moduleEdges (_ # ops) f = moduleEdges ops f"

fun moduleCallees :: "('f, 'c) Operation list \<Rightarrow> 'f set" where
  "moduleCallees [] = {}"
| "moduleCallees (CallOp callOp caller (Some funcOp) # ops) = insert funcOp (moduleCallees ops)"
| "moduleCallees (_ # ops) = moduleCallees ops"

fun moduleFuncs :: "('f, 'c) Operation list \<Rightarrow> 'f list" where
  "moduleFuncs [] = []"
| "moduleFuncs (FuncOp funcOp # ops) = funcOp # moduleFuncs ops"
| "moduleFuncs (_ # ops) = moduleFuncs ops"

text \<open>
  Every resolved call site of the module lies in a function of the module: the enclosing
  function that \<^verbatim>\<open>getParentOfType\<close> finds for it is one of the module's functions.
\<close>

definition callSitesInFunctions :: "('f, 'c) Operation list \<Rightarrow> bool" where
  "callSitesInFunctions m =
     list_all (\<lambda>opr. case opr of
                 CallOp callOp caller (Some funcOp) \<Rightarrow> caller \<in> set (moduleFuncs m)
               | _ \<Rightarrow> True) m"

definition getRoots :: "('f, 'c, 't) CallGraph \<Rightarrow> 'f list" where
  "getRoots cg = roots cg"

definition isRoot :: "('f, 'c, 't) CallGraph \<Rightarrow> 'f \<Rightarrow> bool" where
  "isRoot cg funcOp = (funcOp \<in> set (roots cg))"

subsection \<open>\<^verbatim>\<open>getFuncData\<close>\<close>

text \<open>
  \<^verbatim>\<open>
  T *getFuncData(FunctionOpInterface funcOp) {
    if (funcMap.count(funcOp)) {
      return &funcMap[funcOp];
    }
    return nullptr;
  }
  \<close>
  The returned pointer is \<open>Some\<close> of the payload it points to, \<^verbatim>\<open>nullptr\<close> is \<open>None\<close>.
\<close>

definition count_key :: "('k \<rightharpoonup> 'v) \<Rightarrow> 'k \<Rightarrow> nat" where
  "count_key m k = (case m k of None \<Rightarrow> 0 | Some _ \<Rightarrow> 1)"

definition getFuncData :: "('f, 'c, 't) CallGraph \<Rightarrow> 'f \<Rightarrow> 't option" where
  "getFuncData cg funcOp =
     (if count_key (funcMap cg) funcOp \<noteq> 0 then funcMap cg funcOp else None)"

subsection \<open>\<^verbatim>\<open>mapFuncOp\<close> and \<^verbatim>\<open>mapCallOp\<close>\<close>

text \<open>
  \<^verbatim>\<open>
  for (auto &kv : graph) {
    for (auto &edge : kv.second) {
      if (edge.second == funcOp) {
        edge.second = targetFuncOp;
      }
    }
  }
  graph[targetFuncOp] = graph[funcOp];
  \<close>
\<close>

definition redirectEdge :: "'f \<Rightarrow> 'f \<Rightarrow> 'c \<times> 'f \<Rightarrow> 'c \<times> 'f" where
  "redirectEdge funcOp targetFuncOp edge =
     (if snd edge = funcOp then (fst edge, targetFuncOp) else edge)"

text \<open>
  \<^verbatim>\<open>
  for (auto it = roots.begin(); it != roots.end(); ++it) {
    if (*it == funcOp) {
      *it = targetFuncOp;
      break;
    }
  }
  \<close>
\<close>

fun replaceRoot :: "'f \<Rightarrow> 'f \<Rightarrow> 'f list \<Rightarrow> 'f list" where
  "replaceRoot funcOp targetFuncOp [] = []"
| "replaceRoot funcOp targetFuncOp (r # rs) =
     (if r = funcOp then targetFuncOp # rs else r # replaceRoot funcOp targetFuncOp rs)"

text \<open>
  \<^verbatim>\<open>funcMap[targetFuncOp] = funcMap[funcOp]\<close>: both \<^verbatim>\<open>operator[]\<close> calls insert a
  default-constructed payload \<^verbatim>\<open>T()\<close>, the parameter \<open>dflt\<close>, at a missing key, and the
  payload of \<open>funcOp\<close> is then copied to \<open>targetFuncOp\<close>.
\<close>

definition mapFuncOp :: "'t \<Rightarrow> 'f \<Rightarrow> 'f \<Rightarrow> ('f, 'c, 't) CallGraph \<Rightarrow> ('f, 'c, 't) CallGraph" where
  "mapFuncOp dflt funcOp targetFuncOp cg =
     (let g1 = (\<lambda>k. map (redirectEdge funcOp targetFuncOp) (graph cg k));
          g2 = g1(targetFuncOp := g1 funcOp);
          payload = (case funcMap cg funcOp of None \<Rightarrow> dflt | Some v \<Rightarrow> v)
      in cg\<lparr>graph := g2,
             roots := replaceRoot funcOp targetFuncOp (roots cg),
             funcMap := (funcMap cg)(funcOp \<mapsto> payload, targetFuncOp \<mapsto> payload)\<rparr>)"

text \<open>
  \<^verbatim>\<open>
  for (auto &kv : graph) {
    for (auto &edge : kv.second) {
      if (edge.first == callOp) {
        edge.first = targetCallOp;
      }
    }
  }
  \<close>
\<close>

definition mapCallOp :: "'c \<Rightarrow> 'c \<Rightarrow> ('f, 'c, 't) CallGraph \<Rightarrow> ('f, 'c, 't) CallGraph" where
  "mapCallOp callOp targetCallOp cg =
     cg\<lparr>graph := (\<lambda>k. map (\<lambda>edge. if fst edge = callOp then (targetCallOp, snd edge) else edge)
                           (graph cg k))\<rparr>"

subsection \<open>\<^verbatim>\<open>walk\<close> and \<^verbatim>\<open>doWalk\<close>\<close>

datatype WalkOrder = PreOrder | PostOrder

text \<open>\<^verbatim>\<open>llvm::report_fatal_error("Cycle detected in call graph")\<close> ends the walk.\<close>

datatype fatal_error = CycleDetected

text \<open>
  \<^verbatim>\<open>
  void doWalk(FunctionOpInterface funcOp,
              DenseSet<FunctionOpInterface> &visited, UpdateEdgeFn updateEdgeFn,
              UpdateNodeFn updateNodeFn) {
    if (visited.count(funcOp)) {
      llvm::report_fatal_error("Cycle detected in call graph");
    }
    if constexpr (UpdateNodeOrder == WalkOrder::PreOrder) {
      updateNodeFn(funcOp);
    }
    for (auto [callOp, callee] : graph[funcOp]) {
      if constexpr (UpdateEdgeOrder == WalkOrder::PreOrder) {
        updateEdgeFn(callOp, callee);
      }
      doWalk<UpdateEdgeOrder, UpdateNodeOrder>(callee, visited, updateEdgeFn,
                                               updateNodeFn);
      if constexpr (UpdateEdgeOrder == WalkOrder::PostOrder) {
        updateEdgeFn(callOp, callee);
      }
    }
    if constexpr (UpdateNodeOrder == WalkOrder::PostOrder) {
      updateNodeFn(funcOp);
    }
    visited.erase(funcOp);
  }
  \<close>
  The two callbacks are arbitrary closures: they are functions that update a state \<open>'s\<close>
  of the caller. The state of the walk is the pair of \<^verbatim>\<open>visited\<close> and that state. The
  result is \<open>None\<close> when the recursion does not return, \<open>Some (Inl CycleDetected)\<close> when
  the fatal error is reported, and \<open>Some (Inr st)\<close> when the call returns in state \<open>st\<close>.

  The function and the loop over its edges call each other, so they are one recursive
  function on a task: \<open>Inl funcOp\<close> is the call \<^verbatim>\<open>doWalk(funcOp, ...)\<close>, and \<open>Inr edges\<close>
  is the rest of the \<^verbatim>\<open>for\<close> loop, over the edges that are left. Nothing in the body
  inserts into \<^verbatim>\<open>visited\<close>.
\<close>

partial_function (option) doWalk_task ::
  "WalkOrder \<Rightarrow> WalkOrder \<Rightarrow> ('f \<Rightarrow> ('c \<times> 'f) list) \<Rightarrow> ('c \<Rightarrow> 'f \<Rightarrow> 's \<Rightarrow> 's) \<Rightarrow> ('f \<Rightarrow> 's \<Rightarrow> 's)
     \<Rightarrow> 'f + ('c \<times> 'f) list \<Rightarrow> 'f set \<times> 's \<Rightarrow> (fatal_error + 'f set \<times> 's) option"
where
  "doWalk_task edgeOrder nodeOrder g updateEdgeFn updateNodeFn task st =
     (case task of
        Inl funcOp \<Rightarrow>
          (case st of (visited, s) \<Rightarrow>
            if funcOp \<in> visited then Some (Inl CycleDetected)
            else
              Option.bind
                (doWalk_task edgeOrder nodeOrder g updateEdgeFn updateNodeFn (Inr (g funcOp))
                   (visited, if nodeOrder = PreOrder then updateNodeFn funcOp s else s))
                (\<lambda>r. case r of
                    Inl err \<Rightarrow> Some (Inl err)
                  | Inr (visited', s') \<Rightarrow>
                      Some (Inr (visited' - {funcOp},
                                 if nodeOrder = PostOrder then updateNodeFn funcOp s' else s'))))
      | Inr [] \<Rightarrow> Some (Inr st)
      | Inr ((callOp, callee) # rest) \<Rightarrow>
          (case st of (visited, s) \<Rightarrow>
            Option.bind
              (doWalk_task edgeOrder nodeOrder g updateEdgeFn updateNodeFn (Inl callee)
                 (visited, if edgeOrder = PreOrder then updateEdgeFn callOp callee s else s))
              (\<lambda>r. case r of
                  Inl err \<Rightarrow> Some (Inl err)
                | Inr (visited', s') \<Rightarrow>
                    doWalk_task edgeOrder nodeOrder g updateEdgeFn updateNodeFn (Inr rest)
                      (visited', if edgeOrder = PostOrder then updateEdgeFn callOp callee s' else s'))))"

definition doWalk ::
  "WalkOrder \<Rightarrow> WalkOrder \<Rightarrow> ('f \<Rightarrow> ('c \<times> 'f) list) \<Rightarrow> ('c \<Rightarrow> 'f \<Rightarrow> 's \<Rightarrow> 's) \<Rightarrow> ('f \<Rightarrow> 's \<Rightarrow> 's)
     \<Rightarrow> 'f \<Rightarrow> 'f set \<times> 's \<Rightarrow> (fatal_error + 'f set \<times> 's) option" where
  "doWalk edgeOrder nodeOrder g updateEdgeFn updateNodeFn funcOp st =
     doWalk_task edgeOrder nodeOrder g updateEdgeFn updateNodeFn (Inl funcOp) st"

definition doWalk_edges ::
  "WalkOrder \<Rightarrow> WalkOrder \<Rightarrow> ('f \<Rightarrow> ('c \<times> 'f) list) \<Rightarrow> ('c \<Rightarrow> 'f \<Rightarrow> 's \<Rightarrow> 's) \<Rightarrow> ('f \<Rightarrow> 's \<Rightarrow> 's)
     \<Rightarrow> ('c \<times> 'f) list \<Rightarrow> 'f set \<times> 's \<Rightarrow> (fatal_error + 'f set \<times> 's) option" where
  "doWalk_edges edgeOrder nodeOrder g updateEdgeFn updateNodeFn edges st =
     doWalk_task edgeOrder nodeOrder g updateEdgeFn updateNodeFn (Inr edges) st"

text \<open>
  \<^verbatim>\<open>
  void walk(UpdateEdgeFn updateEdgeFn, UpdateNodeFn updateNodeFn) {
    DenseSet<FunctionOpInterface> visited;
    for (auto root : roots) {
      doWalk<UpdateEdgeOrder, UpdateNodeOrder>(root, visited, updateEdgeFn,
                                               updateNodeFn);
    }
  }
  \<close>
  \<open>walk_roots\<close> is the loop over the roots; \<open>walk\<close> starts it with an empty
  \<^verbatim>\<open>visited\<close> and gives back the state of the caller that the callbacks have built.
\<close>

fun walk_roots ::
  "WalkOrder \<Rightarrow> WalkOrder \<Rightarrow> ('f \<Rightarrow> ('c \<times> 'f) list) \<Rightarrow> ('c \<Rightarrow> 'f \<Rightarrow> 's \<Rightarrow> 's) \<Rightarrow> ('f \<Rightarrow> 's \<Rightarrow> 's)
     \<Rightarrow> 'f list \<Rightarrow> 'f set \<times> 's \<Rightarrow> (fatal_error + 'f set \<times> 's) option" where
  "walk_roots edgeOrder nodeOrder g updateEdgeFn updateNodeFn [] st = Some (Inr st)"
| "walk_roots edgeOrder nodeOrder g updateEdgeFn updateNodeFn (root # rest) st =
     (case doWalk edgeOrder nodeOrder g updateEdgeFn updateNodeFn root st of
        None \<Rightarrow> None
      | Some (Inl err) \<Rightarrow> Some (Inl err)
      | Some (Inr st') \<Rightarrow> walk_roots edgeOrder nodeOrder g updateEdgeFn updateNodeFn rest st')"

definition walk ::
  "WalkOrder \<Rightarrow> WalkOrder \<Rightarrow> ('c \<Rightarrow> 'f \<Rightarrow> 's \<Rightarrow> 's) \<Rightarrow> ('f \<Rightarrow> 's \<Rightarrow> 's)
     \<Rightarrow> ('f, 'c, 't) CallGraph \<Rightarrow> 's \<Rightarrow> (fatal_error + 's) option" where
  "walk edgeOrder nodeOrder updateEdgeFn updateNodeFn cg s =
     map_option (map_sum id snd)
       (walk_roots edgeOrder nodeOrder (graph cg) updateEdgeFn updateNodeFn (roots cg) ({}, s))"

text \<open>
  To observe a walk, the callbacks record their invocations: the state of the caller is
  the list of the invocations so far.
\<close>

datatype ('f, 'c) WalkEvent = NodeUpdate 'f | EdgeUpdate 'c 'f

definition recordEdge :: "'c \<Rightarrow> 'f \<Rightarrow> ('f, 'c) WalkEvent list \<Rightarrow> ('f, 'c) WalkEvent list" where
  "recordEdge callOp callee tr = tr @ [EdgeUpdate callOp callee]"

definition recordNode :: "'f \<Rightarrow> ('f, 'c) WalkEvent list \<Rightarrow> ('f, 'c) WalkEvent list" where
  "recordNode funcOp tr = tr @ [NodeUpdate funcOp]"

fun nodeUpdates :: "('f, 'c) WalkEvent list \<Rightarrow> 'f list" where
  "nodeUpdates [] = []"
| "nodeUpdates (NodeUpdate funcOp # tr) = funcOp # nodeUpdates tr"
| "nodeUpdates (EdgeUpdate callOp callee # tr) = nodeUpdates tr"

text \<open>
  A call path from \<open>funcOp\<close> is a list of positions: the first is the position of a call
  site in the edge list of \<open>funcOp\<close>, the rest is a call path from its callee.
  \<open>pathEnd\<close> is the function the path leads to.
\<close>

fun pathEnd :: "('f \<Rightarrow> ('c \<times> 'f) list) \<Rightarrow> 'f \<Rightarrow> nat list \<Rightarrow> 'f option" where
  "pathEnd g funcOp [] = Some funcOp"
| "pathEnd g funcOp (i # p) =
     (if i < length (g funcOp) then pathEnd g (snd (g funcOp ! i)) p else None)"

definition callPaths :: "('f \<Rightarrow> ('c \<times> 'f) list) \<Rightarrow> 'f \<Rightarrow> 'f \<Rightarrow> nat list set" where
  "callPaths g funcOp target = {p. pathEnd g funcOp p = Some target}"

text \<open>The call relation of a graph: \<open>(caller, callee)\<close> for every edge.\<close>

definition callEdges :: "('f \<Rightarrow> ('c \<times> 'f) list) \<Rightarrow> ('f \<times> 'f) set" where
  "callEdges g = {(caller, callee). callee \<in> snd ` set (g caller)}"

subsection \<open>Example modules\<close>

text \<open>
  The call chain \<open>A \<rightarrow> B \<rightarrow> C\<close>: \<open>A\<close> calls \<open>B\<close> at the call site \<open>c1\<close>, \<open>B\<close> calls \<open>C\<close> at
  \<open>c2\<close>. The walk of a module visits the operations of a function body before the
  function itself.
\<close>

definition chainModule :: "'f \<Rightarrow> 'f \<Rightarrow> 'f \<Rightarrow> 'c \<Rightarrow> 'c \<Rightarrow> ('f, 'c) Operation list" where
  "chainModule A B C c1 c2 =
     [CallOp c1 A (Some B), FuncOp A, CallOp c2 B (Some C), FuncOp B, FuncOp C]"

text \<open>A diamond: \<open>A\<close> calls \<open>B\<close> and \<open>C\<close>, and both call \<open>D\<close>.\<close>

definition diamondModule :: "(string, string) Operation list" where
  "diamondModule =
     [CallOp ''c1'' ''A'' (Some ''B''), CallOp ''c2'' ''A'' (Some ''C''), FuncOp ''A'',
      CallOp ''c3'' ''B'' (Some ''D''), FuncOp ''B'',
      CallOp ''c4'' ''C'' (Some ''D''), FuncOp ''C'',
      FuncOp ''D'']"

text \<open>The chain \<open>A \<rightarrow> B \<rightarrow> C\<close> with a self-call added to \<open>B\<close>.\<close>

definition selfCallModule :: "(string, string) Operation list" where
  "selfCallModule =
     [CallOp ''c1'' ''A'' (Some ''B''), FuncOp ''A'',
      CallOp ''c2'' ''B'' (Some ''B''), CallOp ''c3'' ''B'' (Some ''C''), FuncOp ''B'',
      FuncOp ''C'']"

text \<open>A function \<open>main\<close> that calls \<open>B\<close>.\<close>

definition callerTargetModule :: "(string, string) Operation list" where
  "callerTargetModule = [CallOp ''c1'' ''main'' (Some ''B''), FuncOp ''main'', FuncOp ''B'']"

section \<open>Properties of the integer helpers\<close>

subsection \<open>\<^verbatim>\<open>product\<close>\<close>

text \<open>
  Claim C8: \<^verbatim>\<open>product\<close> applied to an empty extent sequence returns 1, the
  multiplicative identity, whatever the integer type and its signedness; the computation
  is on machine integers only (the accumulator is a 32-bit word, the result a word of the
  width of \<^verbatim>\<open>Int\<close>).
\<close>

theorem product_empty: "product is_signed ([] :: 'a::len word list) = (1 :: 'a word)"
  by (simp add: product_def)

subsection \<open>\<^verbatim>\<open>highestPowOf2Divisor\<close>\<close>

text \<open>
  For \<open>n \<noteq> 0\<close>, \<open>n AND NOT (n - 1)\<close> is \<open>n AND - n\<close>, the lowest set bit of \<open>n\<close>. On the
  integers this is shown by induction on the absolute value: an odd number gives 1, an
  even number \<open>2 * b\<close> gives twice the lowest set bit of \<open>b\<close>.
\<close>

lemma odd_and_neg_int: "odd (k::int) \<Longrightarrow> k AND - k = 1"
proof (rule bit_eqI)
  fix n
  assume "odd k"
  then have "bit k n = (bit (k - 1) n \<or> n = 0)" by (rule odd_bit_iff_bit_pred)
  moreover have "\<not> bit (k - 1) 0" using \<open>odd k\<close> by (simp add: bit_0)
  ultimately show "bit (k AND - k) n = bit (1::int) n"
    by (auto simp add: bit_and_iff bit_minus_int_iff bit_not_iff bit_1_iff)
qed

lemma even_and_neg_int: "(2 * b) AND - (2 * b) = 2 * (b AND - b)" for b :: int
proof -
  have "push_bit 1 b AND push_bit 1 (- b) = push_bit 1 (b AND - b)"
    by (simp only: push_bit_and)
  then show ?thesis by (simp add: push_bit_eq_mult mult.commute)
qed

lemma and_neg_int_pow:
  "k \<noteq> 0 \<Longrightarrow> \<exists>j. k AND - k = 2 ^ j \<and> 2 ^ j dvd k \<and> \<not> 2 ^ Suc j dvd k" for k :: int
proof (induction "nat \<bar>k\<bar>" arbitrary: k rule: less_induct)
  case less
  show ?case
  proof (cases "odd k")
    case True
    have "k AND - k = 1" using True by (rule odd_and_neg_int)
    with True show ?thesis by (intro exI [of _ 0]) simp
  next
    case False
    then obtain b where b: "k = 2 * b" by (auto elim: evenE)
    with less.prems have b0: "b \<noteq> 0" by simp
    have "nat \<bar>b\<bar> < nat \<bar>k\<bar>" using b b0 by simp
    from less.hyps [OF this b0] obtain j
      where j: "b AND - b = 2 ^ j" "2 ^ j dvd b" "\<not> 2 ^ Suc j dvd b"
      by blast
    have "k AND - k = 2 * (b AND - b)" unfolding b by (rule even_and_neg_int)
    moreover have "2 ^ Suc j dvd k" using j(2) b by simp
    moreover have "\<not> 2 ^ Suc (Suc j) dvd k"
    proof
      assume "2 ^ Suc (Suc j) dvd k"
      then have "2 * 2 ^ Suc j dvd 2 * b" by (simp add: b)
      then have "2 ^ Suc j dvd b" by (simp only: dvd_mult_cancel_left) simp
      with j(3) show False ..
    qed
    ultimately show ?thesis using j(1) by (intro exI [of _ "Suc j"]) simp
  qed
qed

lemma word_and_neg: "(n::'a::len word) AND - n = word_of_int (uint n AND - uint n)"
  by (metis word_minus_def word_of_int_uint word_wi_log_defs(2))

lemma word_lowbit:
  fixes n :: "'a::len word"
  assumes "n \<noteq> 0"
  shows "\<exists>j<LENGTH('a). n AND NOT (n - 1) = 2 ^ j \<and> 2 ^ j dvd unat n \<and> \<not> 2 ^ Suc j dvd unat n"
proof -
  have u0: "uint n \<noteq> 0" using assms by (simp add: uint_0_iff)
  from and_neg_int_pow [OF u0] obtain j where
    j: "uint n AND - uint n = 2 ^ j" "2 ^ j dvd uint n" "\<not> 2 ^ Suc j dvd uint n" by blast
  have "(2::int) ^ j \<le> uint n" using j(2) u0 by (intro zdvd_imp_le) (simp_all add: less_le)
  also have "uint n < 2 ^ LENGTH('a)" by (rule uint_bounded)
  finally have jl: "j < LENGTH('a)" by simp
  have "n AND NOT (n - 1) = n AND - n" by (simp add: minus_eq_not_minus_1)
  also have "\<dots> = word_of_int (2 ^ j)" by (simp only: word_and_neg j(1))
  finally have e: "n AND NOT (n - 1) = 2 ^ j" by simp
  have d: "2 ^ i dvd unat n \<longleftrightarrow> 2 ^ i dvd uint n" for i
  proof -
    have "2 ^ i dvd unat n \<longleftrightarrow> int (2 ^ i) dvd int (unat n)" by (simp only: int_dvd_int_iff)
    then show ?thesis by simp
  qed
  have d1: "2 ^ j dvd unat n" using j(2) by (simp only: d)
  have d2: "\<not> 2 ^ Suc j dvd unat n" using j(3) by (simp only: d) simp
  show ?thesis using jl e d1 d2 by blast
qed

lemma unat_exp_word: "k < LENGTH('a) \<Longrightarrow> unat (2 ^ k :: 'a::len word) = 2 ^ k"
  by (simp add: of_nat_inverse)

text \<open>
  Claim C10: for every \<open>n > 0\<close>, \<^verbatim>\<open>highestPowOf2Divisor(n)\<close> is the highest power of two
  that divides \<open>n\<close>: it is a power of two \<open>2 ^ k\<close> that divides \<open>n\<close>, and every power of
  two that divides \<open>n\<close> has an exponent of at most \<open>k\<close>. For \<open>n = 0\<close> it returns
  \<open>2 ^ (bitwidth - 2)\<close>, which is \<open>2 ^ 30\<close> for a 32-bit type.
\<close>

theorem highestPowOf2Divisor_highest:
  fixes n :: "'a::len word"
  shows "(n \<noteq> 0 \<longrightarrow>
           (\<exists>k<LENGTH('a). unat (highestPowOf2Divisor n) = 2 ^ k \<and> 2 ^ k dvd unat n \<and>
              (\<forall>j. 2 ^ j dvd unat n \<longrightarrow> j \<le> k))) \<and>
         unat (highestPowOf2Divisor (0 :: 'a word)) = 2 ^ (LENGTH('a) - 2)"
proof (intro conjI impI)
  assume "n \<noteq> 0"
  from word_lowbit [OF this] obtain k where k: "k < LENGTH('a)" "n AND NOT (n - 1) = 2 ^ k"
    "2 ^ k dvd unat n" "\<not> 2 ^ Suc k dvd unat n" by blast
  have "unat (highestPowOf2Divisor n) = 2 ^ k"
    using \<open>n \<noteq> 0\<close> k(1,2) by (simp add: highestPowOf2Divisor_def unat_exp_word)
  moreover have "j \<le> k" if "2 ^ j dvd unat n" for j
  proof (rule ccontr)
    assume "\<not> j \<le> k"
    then have "Suc k \<le> j" by simp
    then have "(2::nat) ^ Suc k dvd 2 ^ j" by (rule le_imp_power_dvd)
    then have "2 ^ Suc k dvd unat n" using that by (rule dvd_trans)
    with k(4) show False ..
  qed
  ultimately show "\<exists>k<LENGTH('a). unat (highestPowOf2Divisor n) = 2 ^ k \<and> 2 ^ k dvd unat n \<and>
              (\<forall>j. 2 ^ j dvd unat n \<longrightarrow> j \<le> k)"
    using k(1,3) by blast
next
  have "LENGTH('a) - 2 < LENGTH('a)" by simp
  then have "unat (2 ^ (LENGTH('a) - 2) :: 'a word) = 2 ^ (LENGTH('a) - 2)" by (rule unat_exp_word)
  then show "unat (highestPowOf2Divisor (0 :: 'a word)) = 2 ^ (LENGTH('a) - 2)"
    by (simp add: highestPowOf2Divisor_def push_bit_eq_mult)
qed

theorem highestPowOf2Divisor_highest_witness:
  "(24 :: 32 word) \<noteq> 0 \<and>
   (\<exists>k<32. unat (highestPowOf2Divisor (24 :: 32 word)) = 2 ^ k \<and> 2 ^ k dvd unat (24 :: 32 word) \<and>
      (\<forall>j. 2 ^ j dvd unat (24 :: 32 word) \<longrightarrow> j \<le> k)) \<and>
   unat (highestPowOf2Divisor (0 :: 32 word)) = 2 ^ 30"
  using highestPowOf2Divisor_highest [of "24 :: 32 word"] by simp

subsection \<open>\<^verbatim>\<open>nextPowOf2\<close>\<close>

text \<open>
  The loop smears the set bits of its argument downwards: after the shifts by
  \<open>1, 2, 4, \<dots>\<close> bit \<open>k\<close> of the result is set exactly when some bit of the argument at
  position \<open>k\<close> or above is set. So an argument \<open>m\<close> with \<open>2 ^ h \<le> m < 2 ^ (h + 1)\<close>
  becomes the mask of \<open>h + 1\<close> ones.
\<close>

lemma nextPowOf2_loop_bits:
  fixes n m :: "'a::len word"
  assumes "0 < i" and "\<And>k. bit n k \<longleftrightarrow> (\<exists>j<i. bit m (k + j))"
  shows "bit (nextPowOf2_loop i n) k \<longleftrightarrow> (\<exists>j. bit m (k + j))"
  using assms
proof (induction i n arbitrary: k rule: nextPowOf2_loop.induct)
  case (1 i n)
  show ?case
  proof (cases "i < LENGTH('a)")
    case True
    have step: "bit (n OR drop_bit i n) k \<longleftrightarrow> (\<exists>j<2 * i. bit m (k + j))" for k
    proof -
      have "bit (n OR drop_bit i n) k \<longleftrightarrow> (\<exists>j<i. bit m (k + j)) \<or> (\<exists>j<i. bit m (i + k + j))"
        by (simp add: bit_or_iff bit_drop_bit_eq "1.prems"(2))
      also have "\<dots> \<longleftrightarrow> (\<exists>j<2 * i. bit m (k + j))"
      proof
        assume "(\<exists>j<i. bit m (k + j)) \<or> (\<exists>j<i. bit m (i + k + j))"
        then show "\<exists>j<2 * i. bit m (k + j)"
        proof
          assume "\<exists>j<i. bit m (k + j)"
          then obtain j where "j < i" "bit m (k + j)" by blast
          then show ?thesis by (intro exI [of _ j]) simp
        next
          assume "\<exists>j<i. bit m (i + k + j)"
          then obtain j where "j < i" "bit m (i + k + j)" by blast
          then show ?thesis by (intro exI [of _ "i + j"]) (simp add: ac_simps)
        qed
      next
        assume "\<exists>j<2 * i. bit m (k + j)"
        then obtain j where j: "j < 2 * i" "bit m (k + j)" by blast
        show "(\<exists>j<i. bit m (k + j)) \<or> (\<exists>j<i. bit m (i + k + j))"
        proof (cases "j < i")
          case True
          with j show ?thesis by blast
        next
          case False
          then have "j - i < i" "k + j = i + k + (j - i)" using j(1) by simp_all
          with j(2) show ?thesis by metis
        qed
      qed
      finally show ?thesis .
    qed
    have "bit (nextPowOf2_loop (2 * i) (n OR drop_bit i n)) k \<longleftrightarrow> (\<exists>j. bit m (k + j))"
      using "1.prems"(1) True step by (intro "1.IH") simp_all
    then show ?thesis using "1.prems"(1) True by (subst nextPowOf2_loop.simps) simp
  next
    case False
    have "(\<exists>j<i. bit m (k + j)) \<longleftrightarrow> (\<exists>j. bit m (k + j))"
    proof
      assume "\<exists>j. bit m (k + j)"
      then obtain j where j: "bit m (k + j)" by blast
      then have "k + j < LENGTH('a)" by (rule bit_imp_le_length)
      with False have "j < i" by simp
      with j show "\<exists>j<i. bit m (k + j)" by blast
    qed blast
    then show ?thesis using False by (subst nextPowOf2_loop.simps) (simp add: "1.prems"(2))
  qed
qed

lemma nextPowOf2_loop_1: "bit (nextPowOf2_loop 1 m) k \<longleftrightarrow> (\<exists>j. bit m (k + j))"
  by (rule nextPowOf2_loop_bits) simp_all


lemma nat_bit_window:
  fixes u :: nat
  assumes "2 ^ h \<le> u" "u < 2 ^ Suc h"
  shows "(\<exists>j. bit u (k + j)) \<longleftrightarrow> k \<le> h"
proof
  assume "\<exists>j. bit u (k + j)"
  then obtain j where j: "bit u (k + j)" by blast
  show "k \<le> h"
  proof (rule ccontr)
    assume "\<not> k \<le> h"
    then have "Suc h \<le> k + j" by simp
    then have "(2::nat) ^ Suc h \<le> 2 ^ (k + j)" by (rule power_increasing) simp
    with assms(2) have "u < 2 ^ (k + j)" by simp
    then have "u div 2 ^ (k + j) = 0" by simp
    with j show False by (simp add: bit_iff_odd)
  qed
next
  assume "k \<le> h"
  have "u div 2 ^ h = 1" using assms by (simp add: div_nat_eqI)
  then have "bit u h" by (simp add: bit_iff_odd)
  with \<open>k \<le> h\<close> have "bit u (k + (h - k))" by simp
  then show "\<exists>j. bit u (k + j)" ..
qed

lemma nextPowOf2_loop_mask:
  fixes m :: "'a::len word"
  assumes "2 ^ h \<le> unat m" "unat m < 2 ^ Suc h"
  shows "nextPowOf2_loop 1 m = mask (Suc h)"
proof (rule bit_eqI)
  fix k
  have hl: "h < LENGTH('a)"
  proof -
    have "unat m < 2 ^ LENGTH('a)" by (rule unsigned_less)
    with assms(1) have "(2::nat) ^ h < 2 ^ LENGTH('a)" by (rule le_less_trans)
    then show ?thesis by (simp only: power_strict_increasing_iff) 
  qed
  have "bit (nextPowOf2_loop 1 m) k \<longleftrightarrow> (\<exists>j. bit (unat m) (k + j))"
    using bit_unsigned_iff nextPowOf2_loop_1 possible_bit_nat by blast
  also have "\<dots> \<longleftrightarrow> k \<le> h" using assms by (rule nat_bit_window)
  also have "\<dots> \<longleftrightarrow> bit (mask (Suc h) :: 'a word) k"
    using hl by (auto simp add: bit_mask_iff)
  finally show "bit (nextPowOf2_loop 1 m) k \<longleftrightarrow> bit (mask (Suc h) :: 'a word) k" .
qed

lemma nextPowOf2_loop_0: "nextPowOf2_loop 1 (0::'a::len word) = 0"
  by (rule bit_eqI) (simp only: nextPowOf2_loop_1, simp)

lemma nextPowOf2_pos:
  fixes n :: "'a::len word"
  assumes "n \<noteq> 0"
  shows "\<exists>k. nextPowOf2 n = 2 ^ k \<and> unat n \<le> 2 ^ k \<and> (\<forall>j. unat n \<le> 2 ^ j \<longrightarrow> k \<le> j)"
proof (cases "n = 1")
  case True
  then have "nextPowOf2 n = 1" using nextPowOf2_loop_0 [where 'a='a] by (simp add: nextPowOf2_def)
  with True show ?thesis by (intro exI [of _ 0]) simp
next
  case False
  define m where "m = n - 1"
  have um: "unat n = Suc (unat m)"
    by (simp add: assms m_def unat_gt_0 unat_minus_one)
  have "1 \<le> unat m"
    using False um word_unat_eq_iff by fastforce
  then obtain h where h: "2 ^ h \<le> unat m" "unat m < 2 ^ (h + 1)"
    using ex_power_ivl1 [of 2 "unat m"] by auto
  have lm: "nextPowOf2_loop 1 m = mask (Suc h)"
    using h by (intro nextPowOf2_loop_mask) simp_all
  have "nextPowOf2 n = nextPowOf2_loop 1 m + 1"
    using assms by (simp only: nextPowOf2_def m_def if_False)
  then have "nextPowOf2 n = mask (Suc h) + 1" by (simp only: lm)
  then have r: "nextPowOf2 n = 2 ^ Suc h" by (simp only: inc_mask_eq_exp)
  have le: "unat n \<le> 2 ^ Suc h" using h um by simp
  have least: "Suc h \<le> j" if "unat n \<le> 2 ^ j" for j
  proof -
    have "(2::nat) ^ h < 2 ^ j" using that um h(1) by linarith
    then have "h < j" by (simp only: power_strict_increasing_iff) 
    then show ?thesis by simp
  qed
  show ?thesis using r le least by blast
qed


text \<open>
  The signed function. On an argument whose sign bit is clear the arithmetic shift is the
  logical one and the sign bit stays clear through the loop, so for every \<open>n \<ge> 0\<close> in the
  signed reading \<open>nextPowOf2_signed\<close> and \<open>nextPowOf2\<close> return the same bits. A word below
  \<open>2 ^ (bitwidth - 1)\<close> is the same number in both readings, and the word
  \<open>2 ^ (bitwidth - 1)\<close> is the least value of the signed type.
\<close>

lemma signed_drop_bit_nonneg:
  fixes n :: "'a::len word"
  assumes "\<not> bit n (LENGTH('a) - 1)"
  shows "signed_drop_bit i n = drop_bit i n"
proof (rule bit_word_eqI)
  fix k
  assume k: "k < LENGTH('a)"
  show "bit (signed_drop_bit i n) k \<longleftrightarrow> bit (drop_bit i n) k"
  proof (cases "LENGTH('a) - i \<le> k")
    case True
    then have "LENGTH('a) \<le> i + k" by simp
    then have "\<not> bit n (i + k)" by (auto dest: bit_imp_le_length)
    with True k assms show ?thesis by (simp add: bit_signed_drop_bit_iff bit_drop_bit_eq)
  next
    case False
    then show ?thesis by (simp add: bit_signed_drop_bit_iff bit_drop_bit_eq)
  qed
qed

lemma nextPowOf2_loop_signed_nonneg:
  fixes n :: "'a::len word"
  assumes "\<not> bit n (LENGTH('a) - 1)"
  shows "nextPowOf2_loop_signed i n = nextPowOf2_loop i n"
  using assms
proof (induction i n rule: nextPowOf2_loop.induct)
  case (1 i n)
  show ?case
  proof (cases "0 < i \<and> i < LENGTH('a)")
    case True
    have s: "signed_drop_bit i n = drop_bit i n" using "1.prems" by (rule signed_drop_bit_nonneg)
    have "LENGTH('a) \<le> i + (LENGTH('a) - 1)" using True by linarith
    then have "\<not> bit n (i + (LENGTH('a) - 1))" by (auto dest: bit_imp_le_length)
    then have "\<not> bit (n OR drop_bit i n) (LENGTH('a) - 1)"
      using "1.prems" by (simp add: bit_or_iff bit_drop_bit_eq)
    with True have "nextPowOf2_loop_signed (2 * i) (n OR drop_bit i n) =
        nextPowOf2_loop (2 * i) (n OR drop_bit i n)" by (intro "1.IH") simp_all
    with True s show ?thesis
      by (subst nextPowOf2_loop_signed.simps, subst nextPowOf2_loop.simps) simp
  next
    case False
    then have "nextPowOf2_loop_signed i n = n"
      by (subst nextPowOf2_loop_signed.simps) auto
    moreover from False have "nextPowOf2_loop i n = n"
      by (subst nextPowOf2_loop.simps) auto
    ultimately show ?thesis by simp
  qed
qed

lemma sint_small:
  fixes w :: "'a::len word"
  assumes "unat w < 2 ^ (LENGTH('a) - 1)"
  shows "sint w = int (unat w)"
proof -
  have ub: "uint w < 2 ^ (LENGTH('a) - 1)"
    using assms by (metis of_nat_less_iff of_nat_numeral of_nat_power uint_nat)
  have "sint w = signed_take_bit (LENGTH('a) - Suc 0) (uint w)" by (rule sint_uint)
  also have "\<dots> = uint w"
  proof (rule signed_take_bit_int_eq_self)
    have "- (2 ^ (LENGTH('a) - Suc 0)) \<le> (0::int)" by simp
    also have "0 \<le> uint w" by simp
    finally show "- (2 ^ (LENGTH('a) - Suc 0)) \<le> uint w" .
    show "uint w < 2 ^ (LENGTH('a) - Suc 0)" using ub by simp
  qed
  finally show ?thesis by simp
qed

lemma sint_nonneg_unat:
  fixes w :: "'a::len word"
  assumes "0 \<le> sint w"
  shows "sint w = int (unat w)" and "unat w < 2 ^ (LENGTH('a) - 1)"
proof -
  have lt: "sint w < 2 ^ (LENGTH('a) - 1)" by (rule sint_lt)
  also have "(2::int) ^ (LENGTH('a) - 1) \<le> 2 ^ LENGTH('a)" by (rule power_increasing) simp_all
  finally have "take_bit LENGTH('a) (sint w) = sint w"
    using assms by (simp add: take_bit_int_eq_self)
  then have "uint w = sint w" by (simp add: uint_sint)
  then show e: "sint w = int (unat w)" by simp
  from lt e have "int (unat w) < 2 ^ (LENGTH('a) - 1)" by simp
  then show "unat w < 2 ^ (LENGTH('a) - 1)"
    by (metis of_nat_less_iff of_nat_numeral of_nat_power)
qed

lemma pred_nonneg:
  fixes n :: "'a::len word"
  assumes "0 < sint n"
  shows "\<not> bit (n - 1) (LENGTH('a) - 1)"
proof -
  from assms have "0 \<le> sint n" by simp
  then have u: "sint n = int (unat n)" "unat n < 2 ^ (LENGTH('a) - 1)"
    by (rule sint_nonneg_unat)+
  from assms u(1) have "n \<noteq> 0" by auto
  then have "unat (n - 1) = unat n - 1" by (simp add: unat_minus_one)
  with u(2) have "unat (n - 1) < 2 ^ (LENGTH('a) - 1)" by simp
  then have "sint (n - 1) = int (unat (n - 1))" by (rule sint_small)
  then have "\<not> sint (n - 1) < 0" by simp
  then show ?thesis by (simp add: bit_last_iff)
qed

lemma nextPowOf2_signed_eq:
  fixes n :: "'a::len word"
  assumes "0 \<le> sint n"
  shows "nextPowOf2_signed n = nextPowOf2 n"
proof (cases "n = 0")
  case True
  then show ?thesis by (simp add: nextPowOf2_signed_def nextPowOf2_def)
next
  case False
  with assms have "0 < sint n" by (metis less_le sint_0 signed_eq_0_iff)
  then have "\<not> bit (n - 1) (LENGTH('a) - 1)" by (rule pred_nonneg)
  then have "nextPowOf2_loop_signed 1 (n - 1) = nextPowOf2_loop 1 (n - 1)"
    by (rule nextPowOf2_loop_signed_nonneg)
  with False show ?thesis by (simp only: nextPowOf2_signed_def nextPowOf2_def if_False)
qed

lemma sint_min: "sint (2 ^ (LENGTH('a) - 1) :: 'a::len word) = - (2 ^ (LENGTH('a) - 1))"
proof -
  let ?w = "2 ^ (LENGTH('a) - 1) :: 'a word"
  have "unat ?w = 2 ^ (LENGTH('a) - 1)" by (rule unat_exp_word) simp
  then have u: "uint ?w = 2 ^ (LENGTH('a) - 1)" by (simp add: uint_nat)
  have "bit ?w (LENGTH('a) - 1)" by (simp add: bit_exp_iff)
  then have neg: "sint ?w < 0" by (simp add: bit_last_iff)
  have ge: "- (2 ^ (LENGTH('a) - 1)) \<le> sint ?w" by (rule sint_ge)
  have p: "(2::int) ^ LENGTH('a) = 2 * 2 ^ (LENGTH('a) - 1)"
    by (metis Suc_pred len_gt_0 power_Suc One_nat_def diff_Suc_1 Suc_diff_1)
  have "take_bit LENGTH('a) (sint ?w + 2 ^ LENGTH('a)) = sint ?w + 2 ^ LENGTH('a)"
    using neg ge p by (intro take_bit_int_eq_self) simp_all
  moreover have "take_bit LENGTH('a) (sint ?w + 2 ^ LENGTH('a)) = take_bit LENGTH('a) (sint ?w)"
    by (simp add: take_bit_eq_mod)
  ultimately have "uint ?w = sint ?w + 2 ^ LENGTH('a)" by (simp add: uint_sint)
  with u p show ?thesis by simp
qed

lemma nextPowOf2_pow:
  assumes kl: "k < LENGTH('a)"
  shows "nextPowOf2 (2 ^ k :: 'a::len word) = 2 ^ k"
proof -
  from kl have u: "unat (2 ^ k :: 'a word) = 2 ^ k" by (rule unat_exp_word)
  have "(2 ^ k :: 'a word) \<noteq> 0" using kl by simp
  from nextPowOf2_pos [OF this] obtain i where i: "nextPowOf2 (2 ^ k :: 'a word) = 2 ^ i"
    "unat (2 ^ k :: 'a word) \<le> 2 ^ i" "\<forall>j. unat (2 ^ k :: 'a word) \<le> 2 ^ j \<longrightarrow> i \<le> j"
    by blast
  from i(3) u have "i \<le> k" by simp
  moreover from i(2) u have "k \<le> i" by simp
  ultimately show ?thesis using i(1) by simp
qed

lemma int_le_pow_iff: "int a \<le> 2 ^ j \<longleftrightarrow> a \<le> 2 ^ j"
  by (metis of_nat_le_iff of_nat_numeral of_nat_power)

lemma int_less_pow_iff: "2 ^ j < int a \<longleftrightarrow> 2 ^ j < a"
  by (metis of_nat_less_iff of_nat_numeral of_nat_power)

text \<open>
  Claim C9, as amended: \<^verbatim>\<open>nextPowOf2(0)\<close> is 1, for an unsigned and for a signed
  \<^verbatim>\<open>T\<close>.
  \<^item> For an unsigned \<^verbatim>\<open>T\<close> and every \<open>n\<close> with \<open>0 < n \<le> 2 ^ (bitwidth - 1)\<close>,
    \<^verbatim>\<open>nextPowOf2(n)\<close> is the smallest power of two greater than or equal to \<open>n\<close>; it
    returns \<open>n\<close> itself when \<open>n\<close> is a power of two; and for every \<open>n\<close> above
    \<open>2 ^ (bitwidth - 1)\<close>, where no power of two greater than or equal to \<open>n\<close> fits the
    type, the final \<open>n + 1\<close> wraps around and the result is 0.
  \<^item> For a signed \<^verbatim>\<open>T\<close> and every \<open>n\<close> with \<open>0 < n \<le> 2 ^ (bitwidth - 2)\<close>,
    \<^verbatim>\<open>nextPowOf2(n)\<close> is the smallest power of two greater than or equal to \<open>n\<close>; it
    returns \<open>n\<close> itself when \<open>n\<close> is a power of two (one of \<open>2 ^ 0, \<dots>, 2 ^ (bitwidth - 2)\<close>);
    and for every \<open>n\<close> above \<open>2 ^ (bitwidth - 2)\<close>, where no power of two greater than or
    equal to \<open>n\<close> fits the type, the final \<open>n + 1\<close> overflows: with wrap-around the result
    is the least value of the type, \<open>- 2 ^ (bitwidth - 1)\<close>.
\<close>

theorem nextPowOf2_least:
  fixes n :: "'a::len word"
  shows "nextPowOf2 (0 :: 'a word) = 1 \<and>
         (0 < unat n \<and> unat n \<le> 2 ^ (LENGTH('a) - 1) \<longrightarrow>
            (\<exists>k<LENGTH('a). unat (nextPowOf2 n) = 2 ^ k \<and> unat n \<le> 2 ^ k \<and>
               (\<forall>j. unat n \<le> 2 ^ j \<longrightarrow> k \<le> j))) \<and>
         (k < LENGTH('a) \<longrightarrow> nextPowOf2 (2 ^ k :: 'a word) = 2 ^ k) \<and>
         (2 ^ (LENGTH('a) - 1) < unat n \<longrightarrow> nextPowOf2 n = 0) \<and>
         nextPowOf2_signed (0 :: 'a word) = 1 \<and>
         (0 < sint n \<and> sint n \<le> 2 ^ (LENGTH('a) - 2) \<longrightarrow>
            (\<exists>k<LENGTH('a) - 1. sint (nextPowOf2_signed n) = 2 ^ k \<and> sint n \<le> 2 ^ k \<and>
               (\<forall>j. sint n \<le> 2 ^ j \<longrightarrow> k \<le> j))) \<and>
         (k < LENGTH('a) - 1 \<longrightarrow> nextPowOf2_signed (2 ^ k :: 'a word) = 2 ^ k) \<and>
         (2 ^ (LENGTH('a) - 2) < sint n \<longrightarrow>
            sint (nextPowOf2_signed n) = - (2 ^ (LENGTH('a) - 1)))"
proof (intro conjI impI)
  show "nextPowOf2 (0 :: 'a word) = 1" by (simp add: nextPowOf2_def)
next
  assume a: "0 < unat n \<and> unat n \<le> 2 ^ (LENGTH('a) - 1)"
  then have "n \<noteq> 0" by auto
  from nextPowOf2_pos [OF this] obtain k where k: "nextPowOf2 n = 2 ^ k" "unat n \<le> 2 ^ k"
    "\<forall>j. unat n \<le> 2 ^ j \<longrightarrow> k \<le> j" by blast
  from a k(3) have "k \<le> LENGTH('a) - 1" by blast
  then have kl: "k < LENGTH('a)" by (simp add: Suc_le_lessD less_eq_Suc_le)
  then have "unat (nextPowOf2 n) = 2 ^ k" by (simp only: k(1) unat_exp_word)
  with kl k(2,3) show "\<exists>k<LENGTH('a). unat (nextPowOf2 n) = 2 ^ k \<and> unat n \<le> 2 ^ k \<and>
               (\<forall>j. unat n \<le> 2 ^ j \<longrightarrow> k \<le> j)" by blast
next
  assume "k < LENGTH('a)"
  then show "nextPowOf2 (2 ^ k :: 'a word) = 2 ^ k" by (rule nextPowOf2_pow)
next
  assume a: "2 ^ (LENGTH('a) - 1) < unat n"
  then have "n \<noteq> 0" by auto
  from nextPowOf2_pos [OF this] obtain k where k: "nextPowOf2 n = 2 ^ k" "unat n \<le> 2 ^ k"
    by blast
  from a k(2) have "(2::nat) ^ (LENGTH('a) - 1) < 2 ^ k" by (rule less_le_trans)
  then have "LENGTH('a) - 1 < k" by (simp only: power_strict_increasing_iff)
  then have "LENGTH('a) \<le> k" by linarith
  then show "nextPowOf2 n = 0" by (simp add: k(1))
next
  show "nextPowOf2_signed (0 :: 'a word) = 1" by (simp add: nextPowOf2_signed_def)
next
  assume a: "0 < sint n \<and> sint n \<le> 2 ^ (LENGTH('a) - 2)"
  then have nn: "0 \<le> sint n" by simp
  then have s: "sint n = int (unat n)" and ub: "unat n < 2 ^ (LENGTH('a) - 1)"
    by (rule sint_nonneg_unat)+
  from a s have n0: "n \<noteq> 0" by auto
  from a s have le: "unat n \<le> 2 ^ (LENGTH('a) - 2)" by (simp only: int_le_pow_iff)
  have se: "nextPowOf2_signed n = nextPowOf2 n" using nn by (rule nextPowOf2_signed_eq)
  from nextPowOf2_pos [OF n0] obtain k where k: "nextPowOf2 n = 2 ^ k" "unat n \<le> 2 ^ k"
    "\<forall>j. unat n \<le> 2 ^ j \<longrightarrow> k \<le> j" by blast
  from le k(3) have k2: "k \<le> LENGTH('a) - 2" by blast
  have w2: "2 \<le> LENGTH('a)"
  proof (rule ccontr)
    assume "\<not> 2 \<le> LENGTH('a)"
    then have "LENGTH('a) - 1 = 0" by simp
    with ub have "unat n = 0" by simp
    then have "n = 0" by (simp only: unat_eq_zero)
    with n0 show False ..
  qed
  with k2 have kl: "k < LENGTH('a) - 1" by linarith
  then have "k < LENGTH('a)" by simp
  then have u: "unat (nextPowOf2 n) = 2 ^ k" by (simp only: k(1) unat_exp_word)
  have "(2::nat) ^ k < 2 ^ (LENGTH('a) - 1)" using kl by (simp only: power_strict_increasing_iff)
  with u have "unat (nextPowOf2 n) < 2 ^ (LENGTH('a) - 1)" by simp
  then have "sint (nextPowOf2 n) = int (unat (nextPowOf2 n))" by (rule sint_small)
  with u se have r: "sint (nextPowOf2_signed n) = 2 ^ k" by simp
  have l: "sint n \<le> 2 ^ k" using k(2) by (simp only: s int_le_pow_iff)
  have m: "k \<le> j" if "sint n \<le> 2 ^ j" for j
  proof -
    from that have "unat n \<le> 2 ^ j" by (simp only: s int_le_pow_iff)
    with k(3) show ?thesis by blast
  qed
  from kl r l m show "\<exists>k<LENGTH('a) - 1. sint (nextPowOf2_signed n) = 2 ^ k \<and> sint n \<le> 2 ^ k \<and>
               (\<forall>j. sint n \<le> 2 ^ j \<longrightarrow> k \<le> j)" by blast
next
  assume kl: "k < LENGTH('a) - 1"
  then have k: "k < LENGTH('a)" by simp
  then have "unat (2 ^ k :: 'a word) = 2 ^ k" by (rule unat_exp_word)
  moreover have "(2::nat) ^ k < 2 ^ (LENGTH('a) - 1)"
    using kl by (simp only: power_strict_increasing_iff)
  ultimately have "unat (2 ^ k :: 'a word) < 2 ^ (LENGTH('a) - 1)" by simp
  then have "sint (2 ^ k :: 'a word) = int (unat (2 ^ k :: 'a word))" by (rule sint_small)
  then have "0 \<le> sint (2 ^ k :: 'a word)" by simp
  then have "nextPowOf2_signed (2 ^ k :: 'a word) = nextPowOf2 (2 ^ k)"
    by (rule nextPowOf2_signed_eq)
  also have "\<dots> = 2 ^ k" using k by (rule nextPowOf2_pow)
  finally show "nextPowOf2_signed (2 ^ k :: 'a word) = 2 ^ k" .
next
  assume a: "2 ^ (LENGTH('a) - 2) < sint n"
  have "(0::int) < 2 ^ (LENGTH('a) - 2)" by simp
  with a have pos: "0 < sint n" by linarith
  then have nn: "0 \<le> sint n" by simp
  then have s: "sint n = int (unat n)" and ub: "unat n < 2 ^ (LENGTH('a) - 1)"
    by (rule sint_nonneg_unat)+
  from pos s have n0: "n \<noteq> 0" by auto
  from a have lo: "2 ^ (LENGTH('a) - 2) < unat n" by (simp only: s int_less_pow_iff)
  have se: "nextPowOf2_signed n = nextPowOf2 n" using nn by (rule nextPowOf2_signed_eq)
  from nextPowOf2_pos [OF n0] obtain k where k: "nextPowOf2 n = 2 ^ k" "unat n \<le> 2 ^ k"
    "\<forall>j. unat n \<le> 2 ^ j \<longrightarrow> k \<le> j" by blast
  from ub have "unat n \<le> 2 ^ (LENGTH('a) - 1)" by (rule less_imp_le)
  with k(3) have k1: "k \<le> LENGTH('a) - 1" by blast
  from lo k(2) have "(2::nat) ^ (LENGTH('a) - 2) < 2 ^ k" by (rule less_le_trans)
  then have "LENGTH('a) - 2 < k" by (simp only: power_strict_increasing_iff)
  with k1 have "k = LENGTH('a) - 1" by linarith
  with k(1) se have "nextPowOf2_signed n = 2 ^ (LENGTH('a) - 1)" by simp
  then show "sint (nextPowOf2_signed n) = - (2 ^ (LENGTH('a) - 1))" by (simp only: sint_min)
qed

theorem nextPowOf2_least_witness:
  "nextPowOf2 (0 :: 32 word) = 1 \<and>
   (0 < unat (5 :: 32 word) \<and> unat (5 :: 32 word) \<le> 2 ^ 31) \<and>
   (\<exists>k<32. unat (nextPowOf2 (5 :: 32 word)) = 2 ^ k \<and> unat (5 :: 32 word) \<le> 2 ^ k \<and>
      (\<forall>j. unat (5 :: 32 word) \<le> 2 ^ j \<longrightarrow> k \<le> j)) \<and>
   nextPowOf2 (2 ^ 4 :: 32 word) = 2 ^ 4 \<and>
   (2 ^ 31 < unat (4000000000 :: 32 word) \<and> nextPowOf2 (4000000000 :: 32 word) = 0) \<and>
   nextPowOf2_signed (0 :: 32 word) = 1 \<and>
   (0 < sint (5 :: 32 word) \<and> sint (5 :: 32 word) \<le> 2 ^ 30) \<and>
   (\<exists>k<31. sint (nextPowOf2_signed (5 :: 32 word)) = 2 ^ k \<and> sint (5 :: 32 word) \<le> 2 ^ k \<and>
      (\<forall>j. sint (5 :: 32 word) \<le> 2 ^ j \<longrightarrow> k \<le> j)) \<and>
   nextPowOf2_signed (2 ^ 4 :: 32 word) = 2 ^ 4 \<and>
   (2 ^ 30 < sint (1073741825 :: 32 word) \<and>
    sint (nextPowOf2_signed (1073741825 :: 32 word)) = - (2 ^ 31))"
  using nextPowOf2_least [of "5 :: 32 word" 4] nextPowOf2_least [of "4000000000 :: 32 word" 4]
    nextPowOf2_least [of "1073741825 :: 32 word" 4]
  by simp

text \<open>
  Claim C9 as stated fails, for an unsigned and for a signed \<^verbatim>\<open>T\<close>:
  \<open>2147483649 = 2 ^ 31 + 1\<close> is representable in an unsigned 32-bit type, and
  \<^verbatim>\<open>nextPowOf2\<close> returns 0 there; \<open>1073741825 = 2 ^ 30 + 1\<close> is a non-negative number
  representable in a signed 32-bit type, and \<^verbatim>\<open>nextPowOf2\<close> returns \<open>- 2147483648\<close>
  there. Neither result is a power of two, and neither is greater than or equal to the
  argument.
\<close>

theorem nextPowOf2_wraps:
  "nextPowOf2 (2147483649 :: 32 word) = 0 \<and>
   \<not> unat (2147483649 :: 32 word) \<le> unat (nextPowOf2 (2147483649 :: 32 word)) \<and>
   sint (nextPowOf2_signed (1073741825 :: 32 word)) = - 2147483648 \<and>
   \<not> sint (1073741825 :: 32 word) \<le> sint (nextPowOf2_signed (1073741825 :: 32 word))"
  by (simp add: nextPowOf2_def nextPowOf2_loop.simps nextPowOf2_signed_def
      nextPowOf2_loop_signed.simps)

section \<open>Properties of \<^verbatim>\<open>ReduceOpHelper\<close>\<close>

text \<open>
  Claim C1: for every reduction operation, \<^verbatim>\<open>getInterWarpSize()\<close> multiplied by
  \<^verbatim>\<open>getIntraWarpSize()\<close> equals \<^verbatim>\<open>getThreadsReductionAxis()\<close>, the total number of
  lanes that cover the reduction axis. The three functions are the ones modelled from
  the specification.
\<close>

theorem interWarp_times_intraWarp:
  "getInterWarpSize h * getIntraWarpSize h = getThreadsReductionAxis h"
  by (simp add: getInterWarpSize_def getIntraWarpSize_def getThreadsReductionAxis_def mult.commute)

text \<open>
  Claim C2, as amended: for every reduction operation whose input tensors have mismatched
  shapes or mismatched layout encodings, the constructor does not fail, it reports at
  least one diagnostic, every diagnostic it reports is an error attributed to the
  operation with the message \<open>shape mismatch\<close> or \<open>encoding mismatch\<close>, and it goes on to
  build the helper all the same: the helper holds the operation, the axis, and the shape
  and the layout of the first operand.
\<close>

theorem ReduceOpHelper_mismatch_reported:
  assumes "inputsMismatched rop"
  shows "\<exists>h ds. ReduceOpHelper_ctor rop = Inr (h, ds) \<and> ds \<noteq> [] \<and>
      (\<forall>d \<in> set ds. diagOp d = getOperation rop \<and>
          diagMessage d \<in> {''shape mismatch'', ''encoding mismatch''}) \<and>
      operation h = getOperation rop \<and> axis h = getAxis rop \<and>
      getSrcShape h = getShape (hd (getOperands rop)) \<and>
      getSrcLayout h = getEncoding (hd (getOperands rop))"
  using assms
  by (auto simp add: inputsMismatched_def ReduceOpHelper_ctor_def getInputTypes_def
      checkInputType_def getSrcShape_def getSrcLayout_def list_ex_iff
      split: list.splits if_splits)

theorem ReduceOpHelper_mismatch_reported_witness:
  "inputsMismatched
     \<lparr>getOperation = ''reduce'', getAxis = 1,
      getOperands = [\<lparr>getShape = [4, 8], getEncoding = ''blocked'', getElementType = ''f32''\<rparr>,
                     \<lparr>getShape = [4, 16], getEncoding = ''blocked'', getElementType = ''f32''\<rparr>]\<rparr> \<and>
   (\<exists>h ds. ReduceOpHelper_ctor
       \<lparr>getOperation = ''reduce'', getAxis = 1,
        getOperands = [\<lparr>getShape = [4, 8], getEncoding = ''blocked'', getElementType = ''f32''\<rparr>,
                       \<lparr>getShape = [4, 16], getEncoding = ''blocked'', getElementType = ''f32''\<rparr>]\<rparr>
        = Inr (h, ds) \<and> ds \<noteq> [] \<and>
      (\<forall>d \<in> set ds. diagOp d = ''reduce'' \<and>
          diagMessage d \<in> {''shape mismatch'', ''encoding mismatch''}) \<and>
      operation h = ''reduce'' \<and> axis h = 1 \<and> getSrcShape h = [4, 8] \<and>
      getSrcLayout h = ''blocked'')"
proof -
  have m: "inputsMismatched
     \<lparr>getOperation = ''reduce'', getAxis = 1,
      getOperands = [\<lparr>getShape = [4, 8], getEncoding = ''blocked'', getElementType = ''f32''\<rparr>,
                     \<lparr>getShape = [4, 16], getEncoding = ''blocked'', getElementType = ''f32''\<rparr>]\<rparr>"
    by (simp add: inputsMismatched_def)
  show ?thesis using m ReduceOpHelper_mismatch_reported [OF m] by simp
qed

text \<open>
  Claim C2 as stated fails in its last part: on inputs of shapes \<open>[4, 8]\<close> and \<open>[4, 16]\<close>
  the constructor reports the shape mismatch and returns a complete helper, built from
  the first operand.
\<close>

theorem ReduceOpHelper_mismatch_still_built:
  "inputsMismatched
     \<lparr>getOperation = ''reduce'', getAxis = 1,
      getOperands = [\<lparr>getShape = [4, 8], getEncoding = ''blocked'', getElementType = ''f32''\<rparr>,
                     \<lparr>getShape = [4, 16], getEncoding = ''blocked'', getElementType = ''f32''\<rparr>]\<rparr> \<and>
   ReduceOpHelper_ctor
     \<lparr>getOperation = ''reduce'', getAxis = 1,
      getOperands = [\<lparr>getShape = [4, 8], getEncoding = ''blocked'', getElementType = ''f32''\<rparr>,
                     \<lparr>getShape = [4, 16], getEncoding = ''blocked'', getElementType = ''f32''\<rparr>]\<rparr>
     = Inr (\<lparr>operation = ''reduce'', srcShape = [4, 8], srcEncoding = ''blocked'',
             srcElementTypes = [''f32'', ''f32''], axis = 1\<rparr>,
            [Error ''reduce'' ''shape mismatch''])"
  by (simp add: inputsMismatched_def ReduceOpHelper_ctor_def getInputTypes_def
      checkInputType_def getElementTypes_def)

section \<open>Properties of \<^verbatim>\<open>CallGraph\<close>\<close>

subsection \<open>\<^verbatim>\<open>getFuncData\<close>\<close>

text \<open>
  Claim C7: for every function handle, \<^verbatim>\<open>getFuncData\<close> returns the attached payload
  when the function is present in the data map, and the explicit absent result, the null
  pointer, when it is not; the absent case is a value that is returned, not a failure.
\<close>

theorem getFuncData_present_or_absent:
  "(funcMap cg funcOp = Some payload \<longrightarrow> getFuncData cg funcOp = Some payload) \<and>
   (funcMap cg funcOp = None \<longrightarrow> getFuncData cg funcOp = None)"
  by (simp add: getFuncData_def count_key_def)

theorem getFuncData_present_or_absent_witness:
  "funcMap ((build [FuncOp ''f'', FuncOp ''g''] :: (string, string, nat) CallGraph)
       \<lparr>funcMap := [''f'' \<mapsto> 7]\<rparr>) ''f'' = Some 7 \<and>
   getFuncData ((build [FuncOp ''f'', FuncOp ''g''] :: (string, string, nat) CallGraph)
       \<lparr>funcMap := [''f'' \<mapsto> 7]\<rparr>) ''f'' = Some 7 \<and>
   funcMap ((build [FuncOp ''f'', FuncOp ''g''] :: (string, string, nat) CallGraph)
       \<lparr>funcMap := [''f'' \<mapsto> 7]\<rparr>) ''g'' = None \<and>
   getFuncData ((build [FuncOp ''f'', FuncOp ''g''] :: (string, string, nat) CallGraph)
       \<lparr>funcMap := [''f'' \<mapsto> 7]\<rparr>) ''g'' = None"
  using getFuncData_present_or_absent
      [of "(build [FuncOp ''f'', FuncOp ''g''] :: (string, string, nat) CallGraph)
             \<lparr>funcMap := [''f'' \<mapsto> 7]\<rparr>" "''f''" 7]
    getFuncData_present_or_absent
      [of "(build [FuncOp ''f'', FuncOp ''g''] :: (string, string, nat) CallGraph)
             \<lparr>funcMap := [''f'' \<mapsto> 7]\<rparr>" "''g''" 7]
  by simp

subsection \<open>Unfolding the walk\<close>

lemma doWalk_unfold:
  "doWalk eo no g ue un funcOp (visited, s) =
     (if funcOp \<in> visited then Some (Inl CycleDetected)
      else Option.bind
             (doWalk_edges eo no g ue un (g funcOp)
                (visited, if no = PreOrder then un funcOp s else s))
             (\<lambda>r. case r of
                 Inl err \<Rightarrow> Some (Inl err)
               | Inr (visited', s') \<Rightarrow>
                   Some (Inr (visited' - {funcOp}, if no = PostOrder then un funcOp s' else s'))))"
  unfolding doWalk_def doWalk_edges_def
  by (subst doWalk_task.simps) simp

lemma doWalk_edges_Nil: "doWalk_edges eo no g ue un [] st = Some (Inr st)"
  unfolding doWalk_edges_def by (subst doWalk_task.simps) simp

lemma doWalk_edges_Cons:
  "doWalk_edges eo no g ue un ((callOp, callee) # rest) (visited, s) =
     Option.bind
       (doWalk eo no g ue un callee (visited, if eo = PreOrder then ue callOp callee s else s))
       (\<lambda>r. case r of
           Inl err \<Rightarrow> Some (Inl err)
         | Inr (visited', s') \<Rightarrow>
             doWalk_edges eo no g ue un rest
               (visited', if eo = PostOrder then ue callOp callee s' else s'))"
  unfolding doWalk_def doWalk_edges_def
  by (subst doWalk_task.simps) simp

text \<open>
  What a returning call tells: started with an empty \<^verbatim>\<open>visited\<close>, it returns without
  the fatal error and with \<^verbatim>\<open>visited\<close> still empty, and every function it was asked
  to walk is in the accessible part of the callee relation.
\<close>

lemma doWalk_task_returns:
  assumes "doWalk_task eo no g ue un task st = Some r"
  shows "fst st = {} \<longrightarrow>
           (\<exists>s'. r = Inr ({}, s')) \<and>
           (case task of
              Inl funcOp \<Rightarrow> funcOp \<in> Wellfounded.acc ((callEdges g)\<inverse>)
            | Inr edges \<Rightarrow> snd ` set edges \<subseteq> Wellfounded.acc ((callEdges g)\<inverse>))"
proof (rule doWalk_task.raw_induct
    [where P = "\<lambda>eo no g ue un task st r. fst st = {} \<longrightarrow>
           (\<exists>s'. r = Inr ({}, s')) \<and>
           (case task of
              Inl funcOp \<Rightarrow> funcOp \<in> Wellfounded.acc ((callEdges g)\<inverse>)
            | Inr edges \<Rightarrow> snd ` set edges \<subseteq> Wellfounded.acc ((callEdges g)\<inverse>))", OF _ assms])
  fix dw :: "WalkOrder \<Rightarrow> WalkOrder \<Rightarrow> ('a \<Rightarrow> ('c \<times> 'a) list) \<Rightarrow> ('c \<Rightarrow> 'a \<Rightarrow> 'b \<Rightarrow> 'b) \<Rightarrow> ('a \<Rightarrow> 'b \<Rightarrow> 'b)
     \<Rightarrow> 'a + ('c \<times> 'a) list \<Rightarrow> 'a set \<times> 'b \<Rightarrow> (fatal_error + 'a set \<times> 'b) option"
    and eo no g ue un task st r
  let ?A = "\<lambda>g :: 'a \<Rightarrow> ('c \<times> 'a) list. Wellfounded.acc ((callEdges g)\<inverse>)"
  assume IH: "\<And>eo no g ue un task st r. dw eo no g ue un task st = Some r \<Longrightarrow>
      fst st = {} \<longrightarrow> (\<exists>s'. r = Inr ({}, s')) \<and>
        (case task of Inl funcOp \<Rightarrow> funcOp \<in> ?A g | Inr edges \<Rightarrow> snd ` set edges \<subseteq> ?A g)"
  assume body: "(case task of
        Inl funcOp \<Rightarrow>
          (case st of (visited, s) \<Rightarrow>
            if funcOp \<in> visited then Some (Inl CycleDetected)
            else
              Option.bind
                (dw eo no g ue un (Inr (g funcOp))
                   (visited, if no = PreOrder then un funcOp s else s))
                (\<lambda>r. case r of
                    Inl err \<Rightarrow> Some (Inl err)
                  | Inr (visited', s') \<Rightarrow>
                      Some (Inr (visited' - {funcOp},
                                 if no = PostOrder then un funcOp s' else s'))))
      | Inr [] \<Rightarrow> Some (Inr st)
      | Inr ((callOp, callee) # rest) \<Rightarrow>
          (case st of (visited, s) \<Rightarrow>
            Option.bind
              (dw eo no g ue un (Inl callee)
                 (visited, if eo = PreOrder then ue callOp callee s else s))
              (\<lambda>r. case r of
                  Inl err \<Rightarrow> Some (Inl err)
                | Inr (visited', s') \<Rightarrow>
                    dw eo no g ue un (Inr rest)
                      (visited', if eo = PostOrder then ue callOp callee s' else s')))) = Some r"
  show "fst st = {} \<longrightarrow> (\<exists>s'. r = Inr ({}, s')) \<and>
        (case task of Inl funcOp \<Rightarrow> funcOp \<in> ?A g | Inr edges \<Rightarrow> snd ` set edges \<subseteq> ?A g)"
  proof
    assume e: "fst st = {}"
    obtain s where st: "st = ({}, s)" using e by (cases st) simp
    show "(\<exists>s'. r = Inr ({}, s')) \<and>
        (case task of Inl funcOp \<Rightarrow> funcOp \<in> ?A g | Inr edges \<Rightarrow> snd ` set edges \<subseteq> ?A g)"
    proof (cases task)
      case (Inl funcOp)
      with body st obtain r1 where r1: "dw eo no g ue un (Inr (g funcOp))
          ({}, if no = PreOrder then un funcOp s else s) = Some r1"
        and r: "(case r1 of Inl err \<Rightarrow> Some (Inl err)
               | Inr (visited', s') \<Rightarrow>
                   Some (Inr (visited' - {funcOp}, if no = PostOrder then un funcOp s' else s'))) = Some r"
        by (auto simp add: bind_eq_Some_conv)
      from IH [OF r1] obtain s1 where s1: "r1 = Inr ({}, s1)"
        and callees: "snd ` set (g funcOp) \<subseteq> ?A g" by auto
      have "funcOp \<in> ?A g"
      proof (rule accI)
        fix callee
        assume "(callee, funcOp) \<in> (callEdges g)\<inverse>"
        then have "callee \<in> snd ` set (g funcOp)" by (simp add: callEdges_def)
        with callees show "callee \<in> ?A g" ..
      qed
      with r s1 Inl show ?thesis by auto
    next
      case (Inr edges)
      show ?thesis
      proof (cases edges)
        case Nil
        with body Inr st show ?thesis by auto
      next
        case (Cons e rest)
        obtain callOp callee where e: "e = (callOp, callee)" by (cases e)
        with body Inr Cons st obtain r1 where
          r1: "dw eo no g ue un (Inl callee)
                 ({}, if eo = PreOrder then ue callOp callee s else s) = Some r1"
          and r: "(case r1 of Inl err \<Rightarrow> Some (Inl err)
                 | Inr (visited', s') \<Rightarrow>
                     dw eo no g ue un (Inr rest)
                       (visited', if eo = PostOrder then ue callOp callee s' else s')) = Some r"
          by (auto simp add: bind_eq_Some_conv)
        from IH [OF r1] obtain s1 where s1: "r1 = Inr ({}, s1)" and c: "callee \<in> ?A g" by auto
        with r have "dw eo no g ue un (Inr rest)
            ({}, if eo = PostOrder then ue callOp callee s1 else s1) = Some r" by simp
        from IH [OF this] have "(\<exists>s'. r = Inr ({}, s')) \<and> snd ` set rest \<subseteq> ?A g" by simp
        with c Inr Cons e show ?thesis by simp
      qed
    qed
  qed
qed

lemma doWalk_returns:
  assumes "doWalk eo no g ue un funcOp ({}, s) = Some r"
  shows "(\<exists>s'. r = Inr ({}, s')) \<and> funcOp \<in> Wellfounded.acc ((callEdges g)\<inverse>)"
  using doWalk_task_returns [OF assms [unfolded doWalk_def]] by simp

lemma doWalk_edges_returns:
  assumes "doWalk_edges eo no g ue un edges ({}, s) = Some r"
  shows "(\<exists>s'. r = Inr ({}, s')) \<and> snd ` set edges \<subseteq> Wellfounded.acc ((callEdges g)\<inverse>)"
  using doWalk_task_returns [OF assms [unfolded doWalk_edges_def]] by simp

text \<open>A function on a call cycle, or one that reaches a call cycle, is not accessible.\<close>

lemma acc_no_cycle:
  assumes "x \<in> Wellfounded.acc r"
  shows "(x, x) \<notin> r\<^sup>+"
  using assms
proof (induction rule: acc.induct)
  case (accI x)
  show ?case
  proof
    assume "(x, x) \<in> r\<^sup>+"
    then obtain y where y: "(x, y) \<in> r\<^sup>*" "(y, x) \<in> r" by (auto dest: tranclD2)
    then have "(y, y) \<in> r\<^sup>+" by (simp add: rtrancl_into_trancl2)
    with accI.IH [OF y(2)] show False ..
  qed
qed

lemma reaches_cycle_not_acc:
  assumes "(funcOp, f) \<in> (callEdges g)\<^sup>*" and "(f, f) \<in> (callEdges g)\<^sup>+"
  shows "funcOp \<notin> Wellfounded.acc ((callEdges g)\<inverse>)"
proof
  assume a: "funcOp \<in> Wellfounded.acc ((callEdges g)\<inverse>)"
  from assms(1) have "(f, funcOp) \<in> ((callEdges g)\<inverse>)\<^sup>*" by (simp add: rtrancl_converse)
  with a have "f \<in> Wellfounded.acc ((callEdges g)\<inverse>)" by (rule acc_downwards)
  then have "(f, f) \<notin> ((callEdges g)\<inverse>)\<^sup>+" by (rule acc_no_cycle)
  with assms(2) show False by (simp add: trancl_converse)
qed

lemma doWalk_cycle_diverges:
  assumes "(funcOp, f) \<in> (callEdges g)\<^sup>*" and "(f, f) \<in> (callEdges g)\<^sup>+"
  shows "doWalk eo no g ue un funcOp ({}, s) = None"
proof (cases "doWalk eo no g ue un funcOp ({}, s)")
  case (Some r)
  then have "funcOp \<in> Wellfounded.acc ((callEdges g)\<inverse>)" by (simp add: doWalk_returns)
  with reaches_cycle_not_acc [OF assms] show ?thesis by simp
qed simp

text \<open>On the accessible part the walk returns.\<close>

lemma doWalk_edges_total:
  assumes "\<And>callee s. callee \<in> snd ` set edges \<Longrightarrow> \<exists>s'. doWalk eo no g ue un callee ({}, s) = Some (Inr ({}, s'))"
  shows "\<exists>s'. doWalk_edges eo no g ue un edges ({}, s) = Some (Inr ({}, s'))"
  using assms
proof (induction edges arbitrary: s)
  case Nil
  show ?case by (simp add: doWalk_edges_Nil)
next
  case (Cons e rest)
  obtain callOp callee where e: "e = (callOp, callee)" by (cases e)
  from Cons.prems [of callee "if eo = PreOrder then ue callOp callee s else s"] e
  obtain s1 where s1: "doWalk eo no g ue un callee ({}, if eo = PreOrder then ue callOp callee s else s)
      = Some (Inr ({}, s1))" by auto
  have "\<exists>s'. doWalk_edges eo no g ue un rest
      ({}, if eo = PostOrder then ue callOp callee s1 else s1) = Some (Inr ({}, s'))"
    by (rule Cons.IH) (simp add: Cons.prems)
  then show ?case by (simp add: e doWalk_edges_Cons s1)
qed

lemma doWalk_total:
  assumes "funcOp \<in> Wellfounded.acc ((callEdges g)\<inverse>)"
  shows "\<exists>s'. doWalk eo no g ue un funcOp ({}, s) = Some (Inr ({}, s'))"
  using assms
proof (induction arbitrary: s rule: acc.induct)
  case (accI funcOp)
  have "\<exists>s'. doWalk_edges eo no g ue un (g funcOp)
      ({}, if no = PreOrder then un funcOp s else s) = Some (Inr ({}, s'))"
  proof (rule doWalk_edges_total)
    fix callee s
    assume "callee \<in> snd ` set (g funcOp)"
    then have "(callee, funcOp) \<in> (callEdges g)\<inverse>" by (simp add: callEdges_def)
    then show "\<exists>s'. doWalk eo no g ue un callee ({}, s) = Some (Inr ({}, s'))"
      by (rule accI.IH)
  qed
  then show ?case by (subst doWalk_unfold) auto
qed


subsection \<open>What \<^verbatim>\<open>build\<close> computes\<close>

lemma fold_buildEdge:
  "fold buildEdge m (g, visited) = (\<lambda>f. g f @ moduleEdges m f, visited \<union> moduleCallees m)"
  by (induction m arbitrary: g visited rule: moduleCallees.induct) (auto simp add: fun_eq_iff)

lemma graph_build: "graph (build m) = moduleEdges m"
  by (simp add: build_def fold_buildEdge)

lemma roots_build: "roots (build m) = findRoots (moduleCallees m) m"
  by (simp add: build_def fold_buildEdge)

lemma set_findRoots: "set (findRoots visited m) = set (moduleFuncs m) - visited"
  by (induction visited m rule: findRoots.induct) auto

lemma set_moduleFuncs: "set (moduleFuncs m) = {f. FuncOp f \<in> set m}"
  by (induction m rule: moduleFuncs.induct) auto

lemma distinct_findRoots: "distinct (moduleFuncs m) \<Longrightarrow> distinct (findRoots visited m)"
  by (induction visited m rule: findRoots.induct) (auto simp add: set_findRoots)

lemma set_moduleEdges:
  "set (moduleEdges m f) = {(callOp, funcOp). CallOp callOp f (Some funcOp) \<in> set m}"
  by (induction m f rule: moduleEdges.induct) auto

lemma moduleCallees_eq: "moduleCallees m = {funcOp. \<exists>callOp caller. CallOp callOp caller (Some funcOp) \<in> set m}"
  by (induction m rule: moduleCallees.induct) auto

lemma finite_callEdges_module: "finite (callEdges (moduleEdges m))"
proof -
  have "callEdges (moduleEdges m) \<subseteq>
      (\<lambda>opr. case opr of CallOp callOp caller (Some funcOp) \<Rightarrow> (caller, funcOp) | _ \<Rightarrow> undefined) ` set m"
    by (force simp add: callEdges_def set_moduleEdges image_iff)
  then show ?thesis by (rule finite_subset) simp
qed


subsection \<open>Counting call paths\<close>

lemma callPaths_unfold:
  "callPaths g f t =
     (if f = t then {[]} else {}) \<union>
     (\<Union>i<length (g f). (#) i ` callPaths g (snd (g f ! i)) t)"
proof (rule set_eqI)
  fix p
  show "p \<in> callPaths g f t \<longleftrightarrow>
    p \<in> (if f = t then {[]} else {}) \<union> (\<Union>i<length (g f). (#) i ` callPaths g (snd (g f ! i)) t)"
    by (cases p) (auto simp add: callPaths_def)
qed

lemma card_callPaths:
  assumes fin: "\<And>e. e \<in> set (g f) \<Longrightarrow> finite (callPaths g (snd e) t)"
  shows "finite (callPaths g f t)"
    and "card (callPaths g f t) =
      (if f = t then 1 else 0) + sum_list (map (\<lambda>e. card (callPaths g (snd e) t)) (g f))"
proof -
  let ?A = "\<lambda>i. (#) i ` callPaths g (snd (g f ! i)) t"
  let ?U = "\<Union>i<length (g f). ?A i"
  have finA: "finite (?A i)" if "i < length (g f)" for i
    using that by (intro finite_imageI fin) simp
  then have finU: "finite ?U" by simp
  show "finite (callPaths g f t)" using finU by (subst callPaths_unfold) simp
  have disj: "\<forall>i\<in>{..<length (g f)}. \<forall>j\<in>{..<length (g f)}. i \<noteq> j \<longrightarrow> ?A i \<inter> ?A j = {}"
    by auto
  have "card ?U = (\<Sum>i<length (g f). card (?A i))"
    using finA disj by (intro card_UN_disjoint) simp_all
  also have "\<dots> = (\<Sum>i<length (g f). card (callPaths g (snd (g f ! i)) t))"
    by (intro sum.cong refl card_image) simp
  also have "\<dots> = sum_list (map (\<lambda>e. card (callPaths g (snd e) t)) (g f))"
    by (simp add: sum_list_sum_nth atLeast0LessThan)
  finally have cU: "card ?U = sum_list (map (\<lambda>e. card (callPaths g (snd e) t)) (g f))" .
  have nil: "[] \<notin> ?U" by auto
  have eq: "callPaths g f t = (if f = t then {[]} else {}) \<union> ?U" by (rule callPaths_unfold)
  have "card (callPaths g f t) = (if f = t then 1 else 0) + card ?U"
  proof (cases "f = t")
    case True
    then have "callPaths g f t = insert [] ?U" using eq by simp
    then show ?thesis using True card_insert_disjoint [OF finU nil] by simp
  next
    case False
    then show ?thesis using eq by simp
  qed
  with cU show "card (callPaths g f t) =
      (if f = t then 1 else 0) + sum_list (map (\<lambda>e. card (callPaths g (snd e) t)) (g f))"
    by simp
qed

lemma nodeUpdates_append: "nodeUpdates (a @ b) = nodeUpdates a @ nodeUpdates b"
  by (induction a rule: nodeUpdates.induct) simp_all

text \<open>The walk with the recording callbacks, on the accessible part.\<close>

lemma doWalk_edges_trace:
  assumes "\<And>e. e \<in> set edges \<Longrightarrow>
      \<exists>T. (\<forall>s. doWalk eo no g recordEdge recordNode (snd e) ({}, s) = Some (Inr ({}, s @ T))) \<and>
          (\<forall>t. count_list (nodeUpdates T) t = card (callPaths g (snd e) t))"
  shows "\<exists>T. (\<forall>s. doWalk_edges eo no g recordEdge recordNode edges ({}, s) = Some (Inr ({}, s @ T))) \<and>
      (\<forall>t. count_list (nodeUpdates T) t = sum_list (map (\<lambda>e. card (callPaths g (snd e) t)) edges))"
  using assms
proof (induction edges)
  case Nil
  show ?case by (intro exI [of _ "[]"]) (simp add: doWalk_edges_Nil)
next
  case (Cons e rest)
  obtain callOp callee where e: "e = (callOp, callee)" by (cases e)
  from Cons.prems [of e] e obtain T1 where
    T1: "\<And>s. doWalk eo no g recordEdge recordNode callee ({}, s) = Some (Inr ({}, s @ T1))"
      "\<And>t. count_list (nodeUpdates T1) t = card (callPaths g callee t)"
    by auto
  from Cons.IH Cons.prems obtain T2 where
    T2: "\<And>s. doWalk_edges eo no g recordEdge recordNode rest ({}, s) = Some (Inr ({}, s @ T2))"
      "\<And>t. count_list (nodeUpdates T2) t = sum_list (map (\<lambda>e. card (callPaths g (snd e) t)) rest)"
    by auto
  let ?pre = "if eo = PreOrder then [EdgeUpdate callOp callee] else []"
  let ?post = "if eo = PostOrder then [EdgeUpdate callOp callee] else []"
  let ?T = "?pre @ T1 @ ?post @ T2"
  have "doWalk_edges eo no g recordEdge recordNode (e # rest) ({}, s) = Some (Inr ({}, s @ ?T))" for s
    by (simp add: e doWalk_edges_Cons T1(1) T2(1) recordEdge_def)
  moreover have "count_list (nodeUpdates ?T) t =
      sum_list (map (\<lambda>e. card (callPaths g (snd e) t)) (e # rest))" for t
    by (simp add: nodeUpdates_append T1(2) T2(2) e)
  ultimately show ?case by blast
qed

lemma doWalk_trace:
  assumes "funcOp \<in> Wellfounded.acc ((callEdges g)\<inverse>)"
  shows "\<exists>T. (\<forall>s. doWalk eo no g recordEdge recordNode funcOp ({}, s) = Some (Inr ({}, s @ T))) \<and>
      (\<forall>t. finite (callPaths g funcOp t) \<and>
           count_list (nodeUpdates T) t = card (callPaths g funcOp t))"
  using assms
proof (induction rule: acc.induct)
  case (accI funcOp)
  have callee: "\<exists>T. (\<forall>s. doWalk eo no g recordEdge recordNode (snd e) ({}, s) = Some (Inr ({}, s @ T))) \<and>
      (\<forall>t. finite (callPaths g (snd e) t) \<and>
           count_list (nodeUpdates T) t = card (callPaths g (snd e) t))"
    if "e \<in> set (g funcOp)" for e
  proof (rule accI.IH)
    show "(snd e, funcOp) \<in> (callEdges g)\<inverse>" using that by (simp add: callEdges_def)
  qed
  then have "\<exists>T. (\<forall>s. doWalk_edges eo no g recordEdge recordNode (g funcOp) ({}, s) = Some (Inr ({}, s @ T))) \<and>
      (\<forall>t. count_list (nodeUpdates T) t = sum_list (map (\<lambda>e. card (callPaths g (snd e) t)) (g funcOp)))"
    by (intro doWalk_edges_trace) blast
  then obtain T where
    T: "\<And>s. doWalk_edges eo no g recordEdge recordNode (g funcOp) ({}, s) = Some (Inr ({}, s @ T))"
      "\<And>t. count_list (nodeUpdates T) t = sum_list (map (\<lambda>e. card (callPaths g (snd e) t)) (g funcOp))"
    by blast
  have fin: "finite (callPaths g (snd e) t)" if "e \<in> set (g funcOp)" for e t
    using callee [OF that] by blast
  let ?pre = "if no = PreOrder then [NodeUpdate funcOp] else []"
  let ?post = "if no = PostOrder then [NodeUpdate funcOp] else []"
  let ?T = "?pre @ T @ ?post"
  have "doWalk eo no g recordEdge recordNode funcOp ({}, s) = Some (Inr ({}, s @ ?T))" for s
    by (subst doWalk_unfold) (simp add: T(1) recordNode_def)
  moreover have "finite (callPaths g funcOp t)" for t
    by (rule card_callPaths(1)) (rule fin)
  moreover have "count_list (nodeUpdates ?T) t = card (callPaths g funcOp t)" for t
  proof -
    have "card (callPaths g funcOp t) =
        (if funcOp = t then 1 else 0) + sum_list (map (\<lambda>e. card (callPaths g (snd e) t)) (g funcOp))"
      by (rule card_callPaths(2)) (rule fin)
    moreover have "no = PreOrder \<or> no = PostOrder" by (cases no) simp_all
    ultimately show ?thesis by (auto simp add: nodeUpdates_append T(2))
  qed
  ultimately show ?case by blast
qed


subsection \<open>The loop over the roots\<close>

lemma walk_roots_never_fatal:
  "walk_roots eo no g ue un rs ({}, s) \<noteq> Some (Inl err)"
proof (induction rs arbitrary: s)
  case Nil
  show ?case by simp
next
  case (Cons root rest)
  show ?case
  proof (cases "doWalk eo no g ue un root ({}, s)")
    case None
    then show ?thesis by simp
  next
    case (Some r)
    from doWalk_returns [OF Some] obtain s' where "r = Inr ({}, s')" by blast
    with Some Cons.IH [of s'] show ?thesis by simp
  qed
qed

lemma walk_roots_diverges:
  assumes "root \<in> set rs" and "root \<notin> Wellfounded.acc ((callEdges g)\<inverse>)"
  shows "walk_roots eo no g ue un rs ({}, s) = None"
  using assms(1)
proof (induction rs arbitrary: s)
  case Nil
  then show ?case by simp
next
  case (Cons r0 rest)
  show ?case
  proof (cases "doWalk eo no g ue un r0 ({}, s)")
    case None
    then show ?thesis by simp
  next
    case (Some r)
    from doWalk_returns [OF Some] obtain s' where r: "r = Inr ({}, s')"
      and acc: "r0 \<in> Wellfounded.acc ((callEdges g)\<inverse>)" by blast
    from acc assms(2) have "r0 \<noteq> root" by blast
    with Cons.prems have "root \<in> set rest" by simp
    then have "walk_roots eo no g ue un rest ({}, s') = None" by (rule Cons.IH)
    with Some r show ?thesis by simp
  qed
qed

lemma walk_never_fatal: "walk eo no ue un cg s \<noteq> Some (Inl err)"
proof
  assume "walk eo no ue un cg s = Some (Inl err)"
  then obtain r where r: "walk_roots eo no (graph cg) ue un (roots cg) ({}, s) = Some r"
    and "map_sum id snd r = Inl err" by (auto simp add: walk_def)
  then have "r = Inl err" by (cases r) simp_all
  with r have "walk_roots eo no (graph cg) ue un (roots cg) ({}, s) = Some (Inl err)" by simp
  then show False by (simp add: walk_roots_never_fatal)
qed

lemma walk_cycle_diverges:
  assumes "root \<in> set (roots cg)" and "(root, f) \<in> (callEdges (graph cg))\<^sup>*"
    and "(f, f) \<in> (callEdges (graph cg))\<^sup>+"
  shows "walk eo no ue un cg s = None"
proof -
  from assms(2,3) have "root \<notin> Wellfounded.acc ((callEdges (graph cg))\<inverse>)"
    by (rule reaches_cycle_not_acc)
  with assms(1) have "walk_roots eo no (graph cg) ue un (roots cg) ({}, s) = None"
    by (rule walk_roots_diverges)
  then show ?thesis by (simp add: walk_def)
qed

lemma walk_roots_trace:
  assumes "set rs \<subseteq> Wellfounded.acc ((callEdges g)\<inverse>)"
  shows "\<exists>T. (\<forall>s. walk_roots eo no g recordEdge recordNode rs ({}, s) = Some (Inr ({}, s @ T))) \<and>
      (\<forall>t. count_list (nodeUpdates T) t = sum_list (map (\<lambda>r. card (callPaths g r t)) rs))"
  using assms
proof (induction rs)
  case Nil
  show ?case by (intro exI [of _ "[]"]) simp
next
  case (Cons root rest)
  then have "root \<in> Wellfounded.acc ((callEdges g)\<inverse>)" by simp
  from doWalk_trace [OF this, of eo no] obtain T1 where
    T1: "\<And>s. doWalk eo no g recordEdge recordNode root ({}, s) = Some (Inr ({}, s @ T1))"
      "\<And>t. count_list (nodeUpdates T1) t = card (callPaths g root t)"
    by blast
  from Cons obtain T2 where
    T2: "\<And>s. walk_roots eo no g recordEdge recordNode rest ({}, s) = Some (Inr ({}, s @ T2))"
      "\<And>t. count_list (nodeUpdates T2) t = sum_list (map (\<lambda>r. card (callPaths g r t)) rest)"
    by auto
  have "walk_roots eo no g recordEdge recordNode (root # rest) ({}, s) = Some (Inr ({}, s @ T1 @ T2))" for s
    by (simp add: T1(1) T2(1))
  moreover have "count_list (nodeUpdates (T1 @ T2)) t =
      sum_list (map (\<lambda>r. card (callPaths g r t)) (root # rest))" for t
    by (simp add: nodeUpdates_append T1(2) T2(2))
  ultimately show ?case by blast
qed

text \<open>Evaluating a walk on a concrete module.\<close>

lemmas walk_eval = walk_def roots_build graph_build doWalk_unfold doWalk_edges_Nil doWalk_edges_Cons
  recordNode_def recordEdge_def

lemma diamond_acyclic:
  "acyclic (callEdges (graph (build diamondModule :: (string, string, unit) CallGraph)))"
proof -
  let ?rank = "\<lambda>f. if f = ''A'' then 2 else if f = ''D'' then 0 else (1::nat)"
  have "(callEdges (graph (build diamondModule :: (string, string, unit) CallGraph)))\<inverse>
      \<subseteq> measure ?rank"
    by (auto simp add: callEdges_def graph_build diamondModule_def split: if_splits)
  then have "wf ((callEdges (graph (build diamondModule :: (string, string, unit) CallGraph)))\<inverse>)"
    by (rule wf_subset [OF wf_measure])
  then have "acyclic ((callEdges (graph (build diamondModule :: (string, string, unit) CallGraph)))\<inverse>)"
    by (rule wf_acyclic)
  then show ?thesis by simp
qed

subsection \<open>Cycles\<close>

text \<open>
  Claim C3 says that on a call graph with a cycle \<^verbatim>\<open>walk\<close> reports the fatal cycle error
  when the cycle is re-entered and never loops indefinitely. The code does neither: on
  the chain \<open>A \<rightarrow> B \<rightarrow> C\<close> with a self-call in \<open>B\<close> the only root is \<open>A\<close> and the walk does
  not return, whatever the orders and the callbacks are; and on no call graph at all does
  \<^verbatim>\<open>walk\<close> report the cycle error, since nothing inserts into \<^verbatim>\<open>visited\<close>.
\<close>

theorem walk_self_call_not_reported:
  "getRoots (build selfCallModule :: (string, string, 't) CallGraph) = [''A''] \<and>
   walk eo no ue un (build selfCallModule :: (string, string, 't) CallGraph) s = None \<and>
   walk eo' no' ue' un' cg' s' \<noteq> Some (Inl CycleDetected)"
proof (intro conjI)
  let ?cg = "build selfCallModule :: (string, string, 't) CallGraph"
  show "getRoots ?cg = [''A'']"
    by (simp add: getRoots_def roots_build selfCallModule_def)
  have r: "''A'' \<in> set (roots ?cg)"
    by (simp add: roots_build selfCallModule_def)
  have "(''A'', ''B'') \<in> callEdges (graph ?cg)"
    by (simp add: callEdges_def graph_build selfCallModule_def)
  then have ab: "(''A'', ''B'') \<in> (callEdges (graph ?cg))\<^sup>*" by (rule r_into_rtrancl)
  have "(''B'', ''B'') \<in> callEdges (graph ?cg)"
    by (simp add: callEdges_def graph_build selfCallModule_def)
  then have bb: "(''B'', ''B'') \<in> (callEdges (graph ?cg))\<^sup>+" by (rule r_into_trancl)
  show "walk eo no ue un ?cg s = None"
    using r ab bb by (rule walk_cycle_diverges)
  show "walk eo' no' ue' un' cg' s' \<noteq> Some (Inl CycleDetected)" by (rule walk_never_fatal)
qed

subsection \<open>Node updates\<close>

text \<open>
  In an acyclic graph built over a module in which every call site lies in a function of
  the module, every function of the module is the end of a call path from a root: a
  function that is no callee is a root itself, and a callee is reached through one of its
  callers.
\<close>

lemma pathEnd_append:
  "pathEnd g f (p @ q) = (case pathEnd g f p of None \<Rightarrow> None | Some f' \<Rightarrow> pathEnd g f' q)"
  by (induction p arbitrary: f) simp_all

lemma module_func_reached:
  fixes cg :: "('f, 'c, 't) CallGraph"
  assumes cg: "cg = build m" and acyc: "acyclic (callEdges (graph cg))"
    and sites: "callSitesInFunctions m"
  shows "FuncOp t \<in> set m \<Longrightarrow> \<exists>root\<in>set (roots cg). callPaths (graph cg) root t \<noteq> {}"
proof -
  have callers: "FuncOp caller \<in> set m" if "CallOp callOp caller (Some callee) \<in> set m"
    for callOp caller callee
  proof -
    from sites that have "caller \<in> set (moduleFuncs m)"
      by (force simp add: callSitesInFunctions_def list_all_iff)
    then show ?thesis by (simp add: set_moduleFuncs)
  qed
  have "finite (callEdges (graph cg))" by (simp add: cg graph_build finite_callEdges_module)
  then have wf: "wf (callEdges (graph cg))" using acyc by (rule finite_acyclic_wf)
  show "FuncOp t \<in> set m \<Longrightarrow> \<exists>root\<in>set (roots cg). callPaths (graph cg) root t \<noteq> {}"
    using wf
  proof (induction t rule: wf_induct_rule)
    case (less t)
    show ?case
    proof (cases "t \<in> moduleCallees m")
      case False
      with less.prems have "t \<in> set (roots cg)"
        by (simp add: cg roots_build set_findRoots set_moduleFuncs)
      moreover have "[] \<in> callPaths (graph cg) t t" by (simp add: callPaths_def)
      ultimately show ?thesis by blast
    next
      case True
      then obtain callOp caller where c: "CallOp callOp caller (Some t) \<in> set m"
        by (auto simp add: moduleCallees_eq)
      then have e: "(callOp, t) \<in> set (graph cg caller)"
        by (simp add: cg graph_build set_moduleEdges)
      then have "(caller, t) \<in> callEdges (graph cg)" by (force simp add: callEdges_def)
      moreover have "FuncOp caller \<in> set m" using c by (rule callers)
      ultimately have "\<exists>root\<in>set (roots cg). callPaths (graph cg) root caller \<noteq> {}"
        by (rule less.IH)
      then obtain root p where root: "root \<in> set (roots cg)"
        and p: "pathEnd (graph cg) root p = Some caller"
        by (auto simp add: callPaths_def)
      from e obtain i where i: "i < length (graph cg caller)" "graph cg caller ! i = (callOp, t)"
        by (auto simp add: in_set_conv_nth)
      have "pathEnd (graph cg) root (p @ [i]) = Some t"
        by (simp add: pathEnd_append p i)
      then have "p @ [i] \<in> callPaths (graph cg) root t" by (simp add: callPaths_def)
      with root show ?thesis by blast
    qed
  qed
qed


lemma finite_callPaths:
  assumes "funcOp \<in> Wellfounded.acc ((callEdges g)\<inverse>)"
  shows "finite (callPaths g funcOp t)"
  using doWalk_trace [OF assms, of PreOrder PreOrder] by blast

text \<open>
  Claim C4, as amended: for every acyclic call graph that \<^verbatim>\<open>build\<close> produces, one
  \<^verbatim>\<open>walk\<close> returns without a fatal error, and it invokes the node-update callback on a
  function once for every call path from a root to that function: the number of
  invocations is the number of such paths, summed over the roots. So a function that is
  reachable through several call paths or from several roots is updated several times.
  When every call site of the module lies in a function of the module, every function of
  the module is updated at least once.
\<close>

theorem walk_node_updates_per_call_path:
  fixes cg :: "('f, 'c, 't) CallGraph"
  assumes "cg = build m" and "acyclic (callEdges (graph cg))"
  shows "\<exists>tr. walk eo no recordEdge recordNode cg [] = Some (Inr tr) \<and>
      (\<forall>t. count_list (nodeUpdates tr) t =
           sum_list (map (\<lambda>root. card (callPaths (graph cg) root t)) (getRoots cg))) \<and>
      (callSitesInFunctions m \<longrightarrow>
         (\<forall>t. FuncOp t \<in> set m \<longrightarrow> 1 \<le> count_list (nodeUpdates tr) t))"
proof -
  have "finite (callEdges (graph cg))" by (simp add: assms(1) graph_build finite_callEdges_module)
  then have "wf ((callEdges (graph cg))\<inverse>)" using assms(2) by (rule finite_acyclic_wf_converse)
  then have acc: "f \<in> Wellfounded.acc ((callEdges (graph cg))\<inverse>)" for f
    by (rule acc_wfD)
  then have "set (roots cg) \<subseteq> Wellfounded.acc ((callEdges (graph cg))\<inverse>)" by blast
  from walk_roots_trace [OF this, of eo no] obtain T where
    T: "\<And>s. walk_roots eo no (graph cg) recordEdge recordNode (roots cg) ({}, s) = Some (Inr ({}, s @ T))"
      "\<And>t. count_list (nodeUpdates T) t = sum_list (map (\<lambda>r. card (callPaths (graph cg) r t)) (roots cg))"
    by blast
  have w: "walk eo no recordEdge recordNode cg [] = Some (Inr T)"
    by (simp add: walk_def T(1))
  have least: "1 \<le> count_list (nodeUpdates T) t"
    if callers: "callSitesInFunctions m" and t: "FuncOp t \<in> set m" for t
  proof -
    from module_func_reached [OF assms] callers t
    obtain root where root: "root \<in> set (roots cg)" "callPaths (graph cg) root t \<noteq> {}" by blast
    have "finite (callPaths (graph cg) root t)" using acc by (rule finite_callPaths)
    with root(2) have "1 \<le> card (callPaths (graph cg) root t)"
      by (simp add: Suc_le_eq card_gt_0_iff)
    also have "\<dots> \<le> sum_list (map (\<lambda>r. card (callPaths (graph cg) r t)) (roots cg))"
      using root(1) by (intro member_le_sum_list) simp_all
    finally show ?thesis by (simp only: T(2))
  qed
  show ?thesis using w T(2) least by (auto simp add: getRoots_def)
qed

theorem walk_node_updates_per_call_path_witness:
  "(build diamondModule :: (string, string, unit) CallGraph) = build diamondModule \<and>
   acyclic (callEdges (graph (build diamondModule :: (string, string, unit) CallGraph))) \<and>
   callSitesInFunctions diamondModule \<and>
   FuncOp ''D'' \<in> set diamondModule \<and>
   (\<exists>tr. walk PreOrder PostOrder recordEdge recordNode
            (build diamondModule :: (string, string, unit) CallGraph) [] = Some (Inr tr) \<and>
      (\<forall>t. count_list (nodeUpdates tr) t =
           sum_list (map (\<lambda>root. card (callPaths
               (graph (build diamondModule :: (string, string, unit) CallGraph)) root t))
             (getRoots (build diamondModule :: (string, string, unit) CallGraph)))) \<and>
      1 \<le> count_list (nodeUpdates tr) ''D'')"
proof -
  have c: "callSitesInFunctions diamondModule"
    by (simp add: callSitesInFunctions_def diamondModule_def)
  have d: "FuncOp ''D'' \<in> set diamondModule" by (simp add: diamondModule_def)
  from walk_node_updates_per_call_path [OF refl diamond_acyclic, of PreOrder PostOrder] c d
  obtain tr where "walk PreOrder PostOrder recordEdge recordNode
            (build diamondModule :: (string, string, unit) CallGraph) [] = Some (Inr tr)"
    "\<forall>t. count_list (nodeUpdates tr) t =
           sum_list (map (\<lambda>root. card (callPaths
               (graph (build diamondModule :: (string, string, unit) CallGraph)) root t))
             (getRoots (build diamondModule :: (string, string, unit) CallGraph)))"
    "1 \<le> count_list (nodeUpdates tr) ''D''"
    by blast
  with c d diamond_acyclic show ?thesis by blast
qed

text \<open>
  Claim C4 as stated fails: the diamond is acyclic, and one walk invokes the node-update
  callback twice on \<open>D\<close>, once for the call path through \<open>B\<close> and once for the one
  through \<open>C\<close>.
\<close>

theorem walk_diamond_updates_twice:
  "acyclic (callEdges (graph (build diamondModule :: (string, string, unit) CallGraph))) \<and>
   map_option (map_sum id nodeUpdates)
     (walk PreOrder PreOrder recordEdge recordNode
        (build diamondModule :: (string, string, unit) CallGraph) []) =
     Some (Inr [''A'', ''B'', ''D'', ''C'', ''D''])"
  by (simp add: diamond_acyclic) (simp add: walk_eval diamondModule_def)

subsection \<open>The call chain\<close>

text \<open>
  Claim C6: for the call graph built over the straight-line call chain \<open>A \<rightarrow> B \<rightarrow> C\<close> of
  three different functions, \<^verbatim>\<open>walk\<close> with pre-order node updates updates the nodes in
  the order \<open>A, B, C\<close> and with post-order node updates in the order \<open>C, B, A\<close>, whatever
  the order of the edge updates is, and \<^verbatim>\<open>getRoots()\<close> returns exactly \<open>A\<close>. In general, a
  function is a root of the graph built over a module exactly when it is a function of
  the module that no call site of the module resolves to.
\<close>

theorem chain_walk_order:
  fixes cg :: "('f, 'c, 't) CallGraph"
  assumes "cg = build (chainModule A B C c1 c2)" and "distinct [A, B, C]"
  shows "getRoots cg = [A] \<and>
     map_option (map_sum id nodeUpdates) (walk eo PreOrder recordEdge recordNode cg []) =
       Some (Inr [A, B, C]) \<and>
     map_option (map_sum id nodeUpdates) (walk eo PostOrder recordEdge recordNode cg []) =
       Some (Inr [C, B, A]) \<and>
     (f \<in> set (getRoots (build m :: ('f, 'c, 't) CallGraph)) \<longleftrightarrow>
        FuncOp f \<in> set m \<and> (\<forall>callOp caller. CallOp callOp caller (Some f) \<notin> set m))"
proof (intro conjI)
  from assms(2) have ne: "A \<noteq> B" "B \<noteq> A" "A \<noteq> C" "C \<noteq> A" "B \<noteq> C" "C \<noteq> B"
    by auto
  show "getRoots cg = [A]"
    using ne by (simp add: assms(1) getRoots_def roots_build chainModule_def)
  show "map_option (map_sum id nodeUpdates) (walk eo PreOrder recordEdge recordNode cg []) =
       Some (Inr [A, B, C])"
    using ne by (cases eo) (simp_all add: assms(1) walk_eval chainModule_def)
  show "map_option (map_sum id nodeUpdates) (walk eo PostOrder recordEdge recordNode cg []) =
       Some (Inr [C, B, A])"
    using ne by (cases eo) (simp_all add: assms(1) walk_eval chainModule_def)
  show "f \<in> set (getRoots (build m :: ('f, 'c, 't) CallGraph)) \<longleftrightarrow>
        FuncOp f \<in> set m \<and> (\<forall>callOp caller. CallOp callOp caller (Some f) \<notin> set m)"
    by (auto simp add: getRoots_def roots_build set_findRoots set_moduleFuncs moduleCallees_eq)
qed

theorem chain_walk_order_witness:
  "(build (chainModule ''A'' ''B'' ''C'' ''c1'' ''c2'') :: (string, string, unit) CallGraph) =
     build (chainModule ''A'' ''B'' ''C'' ''c1'' ''c2'') \<and>
   distinct [''A'', ''B'', ''C''] \<and>
   getRoots (build (chainModule ''A'' ''B'' ''C'' ''c1'' ''c2'') :: (string, string, unit) CallGraph)
     = [''A''] \<and>
   map_option (map_sum id nodeUpdates)
     (walk PostOrder PreOrder recordEdge recordNode
       (build (chainModule ''A'' ''B'' ''C'' ''c1'' ''c2'') :: (string, string, unit) CallGraph) []) =
     Some (Inr [''A'', ''B'', ''C'']) \<and>
   map_option (map_sum id nodeUpdates)
     (walk PostOrder PostOrder recordEdge recordNode
       (build (chainModule ''A'' ''B'' ''C'' ''c1'' ''c2'') :: (string, string, unit) CallGraph) []) =
     Some (Inr [''C'', ''B'', ''A''])"
proof -
  have d: "distinct [''A'', ''B'', ''C'']" by simp
  show ?thesis
    using d chain_walk_order [OF refl d, of "''c1''" "''c2''" PostOrder "''A''" "[]",
        where ?'t = unit]
    by simp
qed

subsection \<open>\<^verbatim>\<open>mapFuncOp\<close>\<close>

lemma graph_mapFuncOp:
  "graph (mapFuncOp dflt funcOp targetFuncOp cg) f =
     map (redirectEdge funcOp targetFuncOp) (graph cg (if f = targetFuncOp then funcOp else f))"
  by (simp add: mapFuncOp_def Let_def)

lemma roots_mapFuncOp:
  "roots (mapFuncOp dflt funcOp targetFuncOp cg) = replaceRoot funcOp targetFuncOp (roots cg)"
  by (simp add: mapFuncOp_def Let_def)

lemma funcMap_mapFuncOp:
  "funcMap (mapFuncOp dflt funcOp targetFuncOp cg) =
     (funcMap cg)(funcOp \<mapsto> (case funcMap cg funcOp of None \<Rightarrow> dflt | Some v \<Rightarrow> v),
                  targetFuncOp \<mapsto> (case funcMap cg funcOp of None \<Rightarrow> dflt | Some v \<Rightarrow> v))"
  by (simp add: mapFuncOp_def Let_def)

lemma replaceRoot_distinct:
  "distinct rs \<Longrightarrow> replaceRoot funcOp targetFuncOp rs = map (\<lambda>r. if r = funcOp then targetFuncOp else r) rs"
proof (induction rs)
  case Nil
  show ?case by simp
next
  case (Cons r rs)
  show ?case
  proof (cases "r = funcOp")
    case True
    with Cons.prems have "funcOp \<notin> set rs" by simp
    then have "map (\<lambda>r. if r = funcOp then targetFuncOp else r) rs = rs"
      by (intro map_idI) auto
    with True show ?thesis by simp
  next
    case False
    with Cons show ?thesis by simp
  qed
qed

lemma redirectEdge_not_old:
  "funcOp \<noteq> targetFuncOp \<Longrightarrow> snd (redirectEdge funcOp targetFuncOp e) \<noteq> funcOp"
  by (simp add: redirectEdge_def)

text \<open>
  Claim C5, as amended: for every call graph that \<^verbatim>\<open>build\<close> produces over a module
  with different functions, with payloads attached, and for \<open>B \<noteq> B'\<close>, after
  \<^verbatim>\<open>mapFuncOp(B, B')\<close>
  \<^item> the edge list of every caller other than \<open>B'\<close> is the one before with every edge that
    pointed at \<open>B\<close> pointing at \<open>B'\<close>, same call site, and the other edges unchanged;
  \<^item> the edge list of \<open>B'\<close> is the one \<open>B\<close> had, redirected likewise (so it is the edge
    list of \<open>B\<close> as it was when \<open>B\<close> does not call itself), and replaces what \<open>B'\<close> had;
  \<^item> \<open>B'\<close> carries the payload that \<open>B\<close> had, or a default-constructed one when \<open>B\<close>
    had none, and the entry of \<open>B\<close> itself in \<^verbatim>\<open>funcMap\<close> stays, with the same payload;
  \<^item> the roots are the ones before with \<open>B\<close> replaced by \<open>B'\<close>;
  \<^item> \<open>B\<close> is not a root, no edge points at \<open>B\<close>, and no call path from a root ends in \<open>B\<close>.
\<close>

theorem mapFuncOp_redirects:
  fixes cg :: "('f, 'c, 't) CallGraph"
  assumes "cg = (build m)\<lparr>funcMap := fm\<rparr>" and "distinct (moduleFuncs m)" and "B \<noteq> B'"
  shows "(f \<noteq> B' \<longrightarrow> graph (mapFuncOp dflt B B' cg) f = map (redirectEdge B B') (graph cg f)) \<and>
     graph (mapFuncOp dflt B B' cg) B' = map (redirectEdge B B') (graph cg B) \<and>
     (B \<notin> snd ` set (graph cg B) \<longrightarrow> graph (mapFuncOp dflt B B' cg) B' = graph cg B) \<and>
     (fm B = Some payload \<longrightarrow> getFuncData (mapFuncOp dflt B B' cg) B' = Some payload) \<and>
     (fm B = None \<longrightarrow> getFuncData (mapFuncOp dflt B B' cg) B' = Some dflt) \<and>
     getFuncData (mapFuncOp dflt B B' cg) B = getFuncData (mapFuncOp dflt B B' cg) B' \<and>
     getRoots (mapFuncOp dflt B B' cg) = map (\<lambda>r. if r = B then B' else r) (getRoots cg) \<and>
     \<not> isRoot (mapFuncOp dflt B B' cg) B \<and>
     B \<notin> snd ` set (graph (mapFuncOp dflt B B' cg) f) \<and>
     (root \<in> set (getRoots (mapFuncOp dflt B B' cg)) \<longrightarrow>
        callPaths (graph (mapFuncOp dflt B B' cg)) root B = {})"
proof -
  let ?cg' = "mapFuncOp dflt B B' cg"
  have dr: "distinct (roots cg)" using assms(1,2) by (simp add: roots_build distinct_findRoots)
  have g1: "f \<noteq> B' \<longrightarrow> graph ?cg' f = map (redirectEdge B B') (graph cg f)"
    by (simp add: graph_mapFuncOp)
  have g2: "graph ?cg' B' = map (redirectEdge B B') (graph cg B)"
    by (simp add: graph_mapFuncOp)
  have g3: "B \<notin> snd ` set (graph cg B) \<longrightarrow> graph ?cg' B' = graph cg B"
  proof
    assume "B \<notin> snd ` set (graph cg B)"
    then have "map (redirectEdge B B') (graph cg B) = graph cg B"
      by (intro map_idI) (auto simp add: redirectEdge_def)
    with g2 show "graph ?cg' B' = graph cg B" by simp
  qed
  have p: "fm B = Some payload \<longrightarrow> getFuncData ?cg' B' = Some payload"
    by (simp add: getFuncData_def count_key_def funcMap_mapFuncOp assms(1))
  have p0: "fm B = None \<longrightarrow> getFuncData ?cg' B' = Some dflt"
    by (simp add: getFuncData_def count_key_def funcMap_mapFuncOp assms(1))
  have p1: "getFuncData ?cg' B = getFuncData ?cg' B'"
    by (simp add: getFuncData_def count_key_def funcMap_mapFuncOp assms(1))
  have r1: "getRoots ?cg' = map (\<lambda>r. if r = B then B' else r) (getRoots cg)"
    using dr by (simp add: getRoots_def roots_mapFuncOp replaceRoot_distinct)
  have r2: "\<not> isRoot ?cg' B"
    using r1 assms(3) by (auto simp add: isRoot_def getRoots_def)
  have e: "B \<notin> snd ` set (graph ?cg' f)" for f
    using assms(3) by (auto simp add: graph_mapFuncOp redirectEdge_def)
  have np: "callPaths (graph ?cg') root B = {}" if "root \<in> set (getRoots ?cg')"
  proof -
    have "pathEnd (graph ?cg') x p \<noteq> Some B" if "x \<noteq> B" for x p
      using that
    proof (induction p arbitrary: x)
      case Nil
      then show ?case by simp
    next
      case (Cons i p)
      show ?case
      proof (cases "i < length (graph ?cg' x)")
        case True
        then have "snd (graph ?cg' x ! i) \<in> snd ` set (graph ?cg' x)" by simp
        with e have "snd (graph ?cg' x ! i) \<noteq> B" by metis
        with Cons.IH True show ?thesis by simp
      next
        case False
        then show ?thesis by simp
      qed
    qed
    moreover have "root \<noteq> B" using that r2 by (auto simp add: isRoot_def getRoots_def)
    ultimately show ?thesis by (simp add: callPaths_def)
  qed
  show ?thesis using g1 g2 g3 p p0 p1 r1 r2 e np by blast
qed

theorem mapFuncOp_redirects_witness:
  "((build (chainModule ''A'' ''B'' ''C'' ''c1'' ''c2''))\<lparr>funcMap := [''B'' \<mapsto> 7]\<rparr>
      :: (string, string, nat) CallGraph) =
     (build (chainModule ''A'' ''B'' ''C'' ''c1'' ''c2''))\<lparr>funcMap := [''B'' \<mapsto> 7]\<rparr> \<and>
   distinct (moduleFuncs (chainModule ''A'' ''B'' ''C'' ''c1'' ''c2'')) \<and> ''B'' \<noteq> ''B2'' \<and>
   ''A'' \<noteq> ''B2'' \<and> [''B'' \<mapsto> 7 :: nat] ''B'' = Some 7 \<and>
   graph (mapFuncOp 0 ''B'' ''B2''
     ((build (chainModule ''A'' ''B'' ''C'' ''c1'' ''c2''))\<lparr>funcMap := [''B'' \<mapsto> 7]\<rparr>
        :: (string, string, nat) CallGraph)) ''A'' = [(''c1'', ''B2'')] \<and>
   graph (mapFuncOp 0 ''B'' ''B2''
     ((build (chainModule ''A'' ''B'' ''C'' ''c1'' ''c2''))\<lparr>funcMap := [''B'' \<mapsto> 7]\<rparr>
        :: (string, string, nat) CallGraph)) ''B2'' = [(''c2'', ''C'')] \<and>
   getFuncData (mapFuncOp 0 ''B'' ''B2''
     ((build (chainModule ''A'' ''B'' ''C'' ''c1'' ''c2''))\<lparr>funcMap := [''B'' \<mapsto> 7]\<rparr>
        :: (string, string, nat) CallGraph)) ''B2'' = Some 7 \<and>
   getRoots (mapFuncOp 0 ''B'' ''B2''
     ((build (chainModule ''A'' ''B'' ''C'' ''c1'' ''c2''))\<lparr>funcMap := [''B'' \<mapsto> 7]\<rparr>
        :: (string, string, nat) CallGraph)) = [''A''] \<and>
   \<not> isRoot (mapFuncOp 0 ''B'' ''B2''
     ((build (chainModule ''A'' ''B'' ''C'' ''c1'' ''c2''))\<lparr>funcMap := [''B'' \<mapsto> 7]\<rparr>
        :: (string, string, nat) CallGraph)) ''B'' \<and>
   ''B'' \<notin> snd ` set (graph (mapFuncOp 0 ''B'' ''B2''
     ((build (chainModule ''A'' ''B'' ''C'' ''c1'' ''c2''))\<lparr>funcMap := [''B'' \<mapsto> 7]\<rparr>
        :: (string, string, nat) CallGraph)) ''A'') \<and>
   callPaths (graph (mapFuncOp 0 ''B'' ''B2''
     ((build (chainModule ''A'' ''B'' ''C'' ''c1'' ''c2''))\<lparr>funcMap := [''B'' \<mapsto> 7]\<rparr>
        :: (string, string, nat) CallGraph))) ''A'' ''B'' = {}"
proof -
  have d: "distinct (moduleFuncs (chainModule ''A'' ''B'' ''C'' ''c1'' ''c2''))"
    by (simp add: chainModule_def)
  have n: "''B'' \<noteq> ''B2''" by simp
  show ?thesis
    using d n mapFuncOp_redirects [where f = "''A''" and dflt = "0 :: nat"
        and fm = "[''B'' \<mapsto> 7 :: nat]" and payload = "7 :: nat" and root = "''A''", OF refl d n]
    by (simp add: graph_build roots_build getRoots_def chainModule_def redirectEdge_def)
qed

text \<open>
  Claim C5 as stated fails when \<open>B'\<close> is a function of the graph that calls \<open>B\<close>: the edge
  of \<open>main\<close> that pointed at \<open>B\<close> does not point at \<open>main\<close> after \<^verbatim>\<open>mapFuncOp(B, main)\<close>, it is
  gone, because the edge list of \<open>main\<close> is overwritten by the empty one of \<open>B\<close>.
\<close>

theorem mapFuncOp_target_edges_lost:
  "graph (build callerTargetModule :: (string, string, nat) CallGraph) ''main'' = [(''c1'', ''B'')] \<and>
   graph (mapFuncOp 0 ''B'' ''main'' (build callerTargetModule :: (string, string, nat) CallGraph)) ''main'' = []"
  by (simp add: graph_mapFuncOp graph_build callerTargetModule_def)


end
